theory Spec2Isabelle
  imports Complex_Main "HOL-Library.Sublist" "HOL-Library.AList"
begin

section \<open>Text and regular expressions\<close>

text \<open>
  Text is a list of characters. A character of the model is one code point in the range
  0..255; the three character classes below are the ones Python's \<^verbatim>\<open>re\<close> and
  \<^verbatim>\<open>str.strip\<close> use for \<^verbatim>\<open>str\<close> values on that range.
\<close>

definition code :: "char \<Rightarrow> nat" where
  "code c = of_char c"

definition is_space :: "char \<Rightarrow> bool" where
  \<comment> \<open>\<^verbatim>\<open>\s\<close>, \<^verbatim>\<open>str.isspace\<close>: TAB..CR, FS..US, space, NEL, NBSP\<close>
  "is_space c = (let n = code c in
     (9 \<le> n \<and> n \<le> 13) \<or> (28 \<le> n \<and> n \<le> 32) \<or> n = 133 \<or> n = 160)"

definition is_ascii_digit :: "char \<Rightarrow> bool" where
  \<comment> \<open>\<^verbatim>\<open>[0-9]\<close>, and \<^verbatim>\<open>\d\<close> on this range\<close>
  "is_ascii_digit c = (let n = code c in 48 \<le> n \<and> n \<le> 57)"

definition is_word :: "char \<Rightarrow> bool" where
  \<comment> \<open>\<^verbatim>\<open>\w\<close>: alphanumeric or underscore\<close>
  "is_word c = (let n = code c in
     (48 \<le> n \<and> n \<le> 57) \<or> (65 \<le> n \<and> n \<le> 90) \<or> n = 95 \<or> (97 \<le> n \<and> n \<le> 122)
     \<or> n = 170 \<or> n = 178 \<or> n = 179 \<or> n = 181 \<or> n = 185 \<or> n = 186
     \<or> (188 \<le> n \<and> n \<le> 190) \<or> (192 \<le> n \<and> n \<le> 214)
     \<or> (216 \<le> n \<and> n \<le> 246) \<or> (248 \<le> n \<and> n \<le> 255))"

text \<open>
  The fragment of regular expressions the program uses: literals, greedy repetition of a
  character class, greedy options, alternatives, sequences and capturing groups.
\<close>

datatype re =
    Lit string
  | Plus "char \<Rightarrow> bool"
  | Star "char \<Rightarrow> bool"
  | Opt re
  | Alt re re
  | Seq re re
  | Grp re

text \<open>
  A matcher state is the text still to be read and the groups captured so far. The matcher
  returns every way the expression matches a prefix of the text, in the order in which a
  backtracking engine tries them: the head of the list is the match the engine reports.
\<close>

type_synonym mstate = "string \<times> string list"

fun star_class :: "(char \<Rightarrow> bool) \<Rightarrow> string \<Rightarrow> string list" where
  "star_class P [] = [[]]"
| "star_class P (c # cs) = (if P c then star_class P cs @ [c # cs] else [c # cs])"

fun matches :: "re \<Rightarrow> mstate \<Rightarrow> mstate list" where
  "matches (Lit l) (s, g) = (if prefix l s then [(drop (length l) s, g)] else [])"
| "matches (Plus P) (s, g) =
     (case s of [] \<Rightarrow> []
      | c # cs \<Rightarrow> if P c then map (\<lambda>r. (r, g)) (star_class P cs) else [])"
| "matches (Star P) (s, g) = map (\<lambda>r. (r, g)) (star_class P s)"
| "matches (Opt r) x = matches r x @ [x]"
| "matches (Alt r1 r2) x = matches r1 x @ matches r2 x"
| "matches (Seq r1 r2) x = concat (map (\<lambda>y. matches r2 y) (matches r1 x))"
| "matches (Grp r) (s, g) =
     map (\<lambda>(s', g'). (s', g' @ [take (length s - length s') s])) (matches r (s, g))"

definition match_here :: "re \<Rightarrow> string \<Rightarrow> mstate option" where
  \<comment> \<open>the match starting at the first character, if there is one\<close>
  "match_here r s = (case matches r (s, []) of [] \<Rightarrow> None | m # _ \<Rightarrow> Some m)"

fun re_search :: "re \<Rightarrow> string \<Rightarrow> mstate option" where
  \<comment> \<open>\<^verbatim>\<open>pattern.search\<close>: the leftmost match\<close>
  "re_search r [] = match_here r []"
| "re_search r (c # cs) =
     (case match_here r (c # cs) of Some m \<Rightarrow> Some m | None \<Rightarrow> re_search r cs)"

function re_sub :: "re \<Rightarrow> string \<Rightarrow> string \<Rightarrow> string" where
  \<comment> \<open>\<^verbatim>\<open>pattern.sub\<close> with a replacement that refers to no group: every non-overlapping
      match, from the left, is replaced\<close>
  "re_sub r repl s =
     (case match_here r s of
        Some (s', g) \<Rightarrow>
          if length s' < length s then repl @ re_sub r repl s'
          else repl @ (case s of [] \<Rightarrow> [] | c # cs \<Rightarrow> c # re_sub r repl cs)
      | None \<Rightarrow> (case s of [] \<Rightarrow> [] | c # cs \<Rightarrow> c # re_sub r repl cs))"
  by pat_completeness auto
termination
  by (relation "measure (\<lambda>(r, repl, s). length s)") auto

declare re_sub.simps [simp del]

section \<open>Rewriting the source URL\<close>

definition mediaset_pattern :: re where
  \<comment> \<open>\<^verbatim>\<open>(/mpd-cenc\.ism)/(web|ctv)?(\.mpd)\<close>\<close>
  "mediaset_pattern =
     Seq (Grp (Lit ''/mpd-cenc.ism''))
       (Seq (Lit ''/'')
         (Seq (Opt (Grp (Alt (Lit ''web'') (Lit ''ctv''))))
              (Grp (Lit ''.mpd''))))"

definition transform_mediaset_url :: "string \<Rightarrow> string" where
  "transform_mediaset_url url =
     (if re_search mediaset_pattern url \<noteq> None
      then re_sub mediaset_pattern ''/main.ism/picky.m3u8'' url
      else url)"

section \<open>Floating-point numbers\<close>

text \<open>
  A Python \<^verbatim>\<open>float\<close> is an IEEE 754 double. A finite double is kept as a mantissa and
  a binary exponent, \<open>Fin m e\<close> standing for \<open>m * 2 ^ e\<close>; every operation computes the exact
  result as a ratio of integers and rounds it to the nearest double, ties to even.
\<close>

datatype exn =
    ValueError | OverflowError | ZeroDivisionError | FileNotFoundError | TelegramError
  | External string

datatype pyfloat = Fin int int | PInf | NInf

function bit_length :: "int \<Rightarrow> nat" where
  "bit_length n = (if n \<le> 0 then 0 else Suc (bit_length (n div 2)))"
  by pat_completeness auto
termination
  by (relation "measure nat") auto

declare bit_length.simps [simp del]

definition scale2 :: "int \<Rightarrow> int \<Rightarrow> int \<Rightarrow> int \<times> int" where
  \<comment> \<open>the ratio \<open>n / d\<close> times \<open>2 ^ k\<close>, as a ratio\<close>
  "scale2 n d k = (if 0 \<le> k then (n * 2 ^ nat k, d) else (n, d * 2 ^ nat (- k)))"

definition binade :: "int \<Rightarrow> int \<Rightarrow> int" where
  \<comment> \<open>for \<open>0 < n\<close> and \<open>0 < d\<close>: the \<open>b\<close> with \<open>2 ^ b \<le> n / d < 2 ^ (b + 1)\<close>\<close>
  "binade n d = (let b = int (bit_length n) - int (bit_length d);
                     (n', d') = scale2 n d (- b)
                 in if d' \<le> n' then b else b - 1)"

definition round_half_even :: "int \<Rightarrow> int \<Rightarrow> int" where
  \<comment> \<open>the integer nearest to \<open>n / d\<close>, for \<open>0 < d\<close>; a tie goes to the even one\<close>
  "round_half_even n d = (let q = n div d; r = n mod d in
     if 2 * r < d then q else if d < 2 * r then q + 1 else if even q then q else q + 1)"

definition round_pos :: "int \<Rightarrow> int \<Rightarrow> int \<times> int" where
  \<comment> \<open>for \<open>0 < n\<close> and \<open>0 < d\<close>: mantissa and exponent of the double nearest to \<open>n / d\<close>;
      53 bits above \<open>2 ^ - 1022\<close>, multiples of \<open>2 ^ - 1074\<close> below\<close>
  "round_pos n d = (let x = max (binade n d) (- 1022) - 52;
                        (n', d') = scale2 n d (- x)
                    in (round_half_even n' d', x))"

definition overflows :: "int \<times> int \<Rightarrow> bool" where
  "overflows p = (case p of (m, x) \<Rightarrow> 0 \<le> x \<and> 2 ^ 1024 \<le> m * 2 ^ nat x)"

definition to_double :: "int \<Rightarrow> int \<Rightarrow> pyfloat" where
  \<comment> \<open>the double nearest to \<open>n / d\<close>, for \<open>d \<noteq> 0\<close>\<close>
  "to_double n0 d0 =
     (let (n, d) = (if d0 < 0 then (- n0, - d0) else (n0, d0)) in
      if n = 0 then Fin 0 0
      else if 0 < n then
        (let p = round_pos n d in if overflows p then PInf else Fin (fst p) (snd p))
      else
        (let p = round_pos (- n) d in if overflows p then NInf else Fin (- fst p) (snd p)))"

definition py_int :: "pyfloat \<Rightarrow> exn + int" where
  \<comment> \<open>\<^verbatim>\<open>int(x)\<close>: truncation towards zero\<close>
  "py_int x = (case x of
      Fin m e \<Rightarrow> Inr (if 0 \<le> e then m * 2 ^ nat e
                       else if 0 \<le> m then m div 2 ^ nat (- e) else - ((- m) div 2 ^ nat (- e)))
    | PInf \<Rightarrow> Inl OverflowError
    | NInf \<Rightarrow> Inl OverflowError)"

definition int_to_float :: "int \<Rightarrow> exn + pyfloat" where
  \<comment> \<open>an integer operand of a float operation\<close>
  "int_to_float n = (case to_double n 1 of
      Fin m e \<Rightarrow> Inr (Fin m e) | PInf \<Rightarrow> Inl OverflowError | NInf \<Rightarrow> Inl OverflowError)"

definition int_truediv :: "int \<Rightarrow> int \<Rightarrow> exn + pyfloat" where
  \<comment> \<open>\<^verbatim>\<open>a / b\<close> on two integers\<close>
  "int_truediv a b = (if b = 0 then Inl ZeroDivisionError
     else case to_double a b of
       Fin m e \<Rightarrow> Inr (Fin m e) | PInf \<Rightarrow> Inl OverflowError | NInf \<Rightarrow> Inl OverflowError)"

definition float_mul :: "pyfloat \<Rightarrow> int \<times> int \<Rightarrow> pyfloat" where
  \<comment> \<open>\<^verbatim>\<open>x * y\<close> for a finite, positive \<open>y\<close>\<close>
  "float_mul x y = (case x of
      Fin m e \<Rightarrow> (case scale2 (m * fst y) 1 (e + snd y) of (n, d) \<Rightarrow> to_double n d)
    | PInf \<Rightarrow> PInf
    | NInf \<Rightarrow> NInf)"

definition float_sub :: "int \<times> int \<Rightarrow> int \<times> int \<Rightarrow> pyfloat" where
  \<comment> \<open>\<^verbatim>\<open>x - y\<close> on two finite doubles\<close>
  "float_sub x y = (let k = min (snd x) (snd y) in
     case scale2 (fst x * 2 ^ nat (snd x - k) - fst y * 2 ^ nat (snd y - k)) 1 k of
       (n, d) \<Rightarrow> to_double n d)"

definition float_pos :: "pyfloat \<Rightarrow> bool" where
  \<comment> \<open>\<^verbatim>\<open>x > 0\<close>\<close>
  "float_pos x = (case x of Fin m e \<Rightarrow> 0 < m | PInf \<Rightarrow> True | NInf \<Rightarrow> False)"

definition float_div :: "int \<times> int \<Rightarrow> pyfloat \<Rightarrow> pyfloat" where
  \<comment> \<open>\<^verbatim>\<open>x / y\<close> for a finite \<open>x\<close> and a positive \<open>y\<close>\<close>
  "float_div x y = (case y of
      Fin m e \<Rightarrow> (case scale2 (fst x) m (snd x - e) of (n, d) \<Rightarrow> to_double n d)
    | PInf \<Rightarrow> Fin 0 0
    | NInf \<Rightarrow> Fin 0 0)"

definition digits_value :: "string \<Rightarrow> int" where
  "digits_value s = foldl (\<lambda>n c. 10 * n + (int (code c) - 48)) 0 s"

definition py_float :: "string \<Rightarrow> exn + pyfloat" where
  \<comment> \<open>\<^verbatim>\<open>float(s)\<close> on a text of digits and dots, the only texts the program passes to it:
      at most one dot and at least one digit, or else \<^verbatim>\<open>ValueError\<close>\<close>
  "py_float s =
     (let ip = takeWhile (\<lambda>c. c \<noteq> CHR ''.'') s;
          fp = tl (dropWhile (\<lambda>c. c \<noteq> CHR ''.'') s)
      in if list_ex (\<lambda>c. c \<noteq> CHR ''.'' \<and> \<not> is_ascii_digit c) s then Inl ValueError
         else if CHR ''.'' \<in> set fp then Inl ValueError
         else if ip @ fp = [] then Inl ValueError
         else Inr (to_double (digits_value (ip @ fp)) (10 ^ length fp)))"

section \<open>Progress of the download\<close>

fun seqs :: "re list \<Rightarrow> re" where
  "seqs [] = Lit []"
| "seqs [r] = r"
| "seqs (r # rs) = Seq r (seqs rs)"

definition digit_or_dot :: "char \<Rightarrow> bool" where
  "digit_or_dot c = (is_ascii_digit c \<or> c = CHR ''.'')"

definition digit_or_colon :: "char \<Rightarrow> bool" where
  "digit_or_colon c = (is_ascii_digit c \<or> c = CHR '':'')"

definition progress_pattern :: re where
  \<comment> \<open>\<^verbatim>\<open>\[download\]\s+([0-9.]+)\%\s+of\s+~?\s*([\d.]+\w+)\s+at\s+([\d.]+\w+/s)\s+ETA\s+([\d:]+)\<close>\<close>
  "progress_pattern = seqs
     [Lit ''[download]'', Plus is_space, Grp (Plus digit_or_dot), Lit ''%'', Plus is_space,
      Lit ''of'', Plus is_space, Opt (Lit ''~''), Star is_space,
      Grp (Seq (Plus digit_or_dot) (Plus is_word)), Plus is_space,
      Lit ''at'', Plus is_space,
      Grp (seqs [Plus digit_or_dot, Plus is_word, Lit ''/s'']), Plus is_space,
      Lit ''ETA'', Plus is_space, Grp (Plus digit_or_colon)]"

text \<open>
  Lines 226 to 230 of the task: the search in the current frame and the conversion of the
  first group, \<^verbatim>\<open>int(float(match.group(1)))\<close>. The result is an exception of the conversion,
  no snapshot, or the percentage with the three texts shown beside it.
\<close>

definition parse_progress :: "string \<Rightarrow> exn + (int \<times> string \<times> string \<times> string) option" where
  "parse_progress line =
     (case re_search progress_pattern line of
        None \<Rightarrow> Inr None
      | Some (rest, g) \<Rightarrow>
          (case g of
             [g1, g2, g3, g4] \<Rightarrow>
               (case py_float g1 of
                  Inl e \<Rightarrow> Inl e
                | Inr f \<Rightarrow> (case py_int f of Inl e \<Rightarrow> Inl e
                            | Inr pct \<Rightarrow> Inr (Some (pct, g2, g3, g4))))
           | _ \<Rightarrow> Inr None))"

definition last_frame :: "string \<Rightarrow> string" where
  \<comment> \<open>\<^verbatim>\<open>buffer.split('\r')[-1]\<close>\<close>
  "last_frame buffer = rev (takeWhile (\<lambda>c. c \<noteq> CHR 0x0D) (rev buffer))"

definition create_progress_bar :: "int \<Rightarrow> bool list" where
  \<comment> \<open>twenty segments, the filled ones \<open>True\<close>\<close>
  "create_progress_bar percentage = map (\<lambda>i. int i < percentage div 5) [0..<20]"

definition strip :: "string \<Rightarrow> string" where
  \<comment> \<open>\<^verbatim>\<open>str.strip()\<close>\<close>
  "strip s = rev (dropWhile is_space (rev (dropWhile is_space s)))"

section \<open>Progress of the upload\<close>

text \<open>Lines 158 to 162 of the upload: elapsed time, speed and percentage.\<close>

definition upload_speed :: "int \<Rightarrow> pyfloat \<Rightarrow> exn + pyfloat" where
  \<comment> \<open>\<^verbatim>\<open>bytes_since_last / elapsed_time if elapsed_time > 0 else 0\<close>\<close>
  "upload_speed bytes_since_last elapsed_time =
     (if float_pos elapsed_time then
        (case int_to_float bytes_since_last of
           Inl e \<Rightarrow> Inl e
         | Inr b \<Rightarrow> (case b of Fin m e \<Rightarrow> Inr (float_div (m, e) elapsed_time)
                     | PInf \<Rightarrow> Inr PInf | NInf \<Rightarrow> Inr NInf))
      else Inr (Fin 0 0))"

definition upload_percentage :: "int \<Rightarrow> int \<Rightarrow> exn + int" where
  \<comment> \<open>\<^verbatim>\<open>int(status.resumable_progress / media.size() * 100)\<close>\<close>
  "upload_percentage resumable_progress media_size =
     (case int_truediv resumable_progress media_size of
        Inl e \<Rightarrow> Inl e
      | Inr d \<Rightarrow> (case int_to_float 100 of
                    Inl e \<Rightarrow> Inl e
                  | Inr h \<Rightarrow> (case h of Fin m e \<Rightarrow> py_int (float_mul d (m, e))
                              | PInf \<Rightarrow> Inl OverflowError | NInf \<Rightarrow> Inl OverflowError)))"

section \<open>The shared state and what the program does to the outside\<close>

type_synonym task_id = string
type_synonym path = string
type_synonym pid = nat
type_synonym message = "int \<times> nat"  \<comment> \<open>chat and \<^verbatim>\<open>message_id\<close>\<close>

text \<open>
  The texts the program shows, one constructor for each format string, with the values
  the string is built from.
\<close>

datatype msg_text =
    Iniciando string
  | Descargando string "bool list" int string string string
  | DescargaCompleta string
  | Completado string "string option" "string option"
  | ErrorDescarga string string
  | ErrorInesperado string exn
  | NoAutenticado
  | Subiendo string "bool list" int string string string
  | ErrorSubida string exn
  | Cancelada path
  | YaFinalizada
  | NoEncontrada

datatype level = Info | Warning | Failure

datatype effect =
    EditText message msg_text  \<comment> \<open>\<^verbatim>\<open>msg.edit_text\<close> is called\<close>
  | EditFailed message msg_text  \<comment> \<open>that call, made by the task, raised\<close>
  | QueryAnswer task_id  \<comment> \<open>\<^verbatim>\<open>query.answer\<close> of the callback \<^verbatim>\<open>cancel_<task_id>\<close>\<close>
  | QueryEdit task_id msg_text  \<comment> \<open>\<^verbatim>\<open>query.edit_message_text\<close>\<close>
  | Exec "string list"  \<comment> \<open>\<^verbatim>\<open>asyncio.create_subprocess_exec\<close>\<close>
  | Terminate pid
  | Remove path  \<comment> \<open>\<^verbatim>\<open>os.remove\<close>\<close>
  | Authenticate  \<comment> \<open>\<^verbatim>\<open>authenticate_drive\<close>\<close>
  | CreateRequest path string  \<comment> \<open>\<^verbatim>\<open>service.files().create\<close>\<close>
  | NextChunk  \<comment> \<open>\<^verbatim>\<open>request.next_chunk\<close>\<close>
  | Log level

text \<open>
  The two dictionaries are association lists; \<open>files\<close> gives the size of every file that
  exists, \<open>alive\<close> the processes that run, \<open>children\<close> the descendants of a process, and
  \<open>trace\<close> every call to the outside so far, in order, with a mark after an edit of the
  task that raised. \<open>Terminate p\<close> is a signal that was sent to \<open>p\<close>.
\<close>

record world =
  active_processes :: "(task_id \<times> pid \<times> path) list"
  progress_messages :: "(task_id \<times> message) list"
  files :: "path \<Rightarrow> nat option"
  alive :: "pid list"
  children :: "pid \<Rightarrow> pid list"
  trace :: "effect list"

definition emit :: "effect \<Rightarrow> world \<Rightarrow> world" where
  "emit e w = w\<lparr>trace := trace w @ [e]\<rparr>"

definition remove_file :: "path \<Rightarrow> world \<Rightarrow> world" where
  "remove_file p w = emit (Remove p) (w\<lparr>files := (files w)(p := None)\<rparr>)"

definition terminate :: "pid \<Rightarrow> world \<Rightarrow> world" where
  "terminate p w = emit (Terminate p) (w\<lparr>alive := removeAll p (alive w)\<rparr>)"

section \<open>Cancelling\<close>

text \<open>
  \<^verbatim>\<open>psutil.Process\<close> raises \<^verbatim>\<open>NoSuchProcess\<close> for a process that is not alive, and so
  does \<^verbatim>\<open>terminate\<close> on a process that has ended since it was found. \<open>signal_all\<close> sends the
  signals of lines 363 and 364 in their order, to the children that were listed and then to
  the parent; \<open>gone\<close> are the processes that end by themselves after the listing. The
  result says whether every signal was sent: the first process found gone raises, and the
  signals after it are not sent. A parent that ends before its children are listed raises
  in the listing, with the same outcome as a parent that was not alive at line 362.
\<close>

fun signal_all :: "pid list \<Rightarrow> pid list \<Rightarrow> world \<Rightarrow> bool \<times> world" where
  "signal_all gone [] w = (True, w)"
| "signal_all gone (p # ps) w =
     (if p \<in> set gone then (False, w) else signal_all gone ps (terminate p w))"

definition teardown :: "pid list \<Rightarrow> pid \<Rightarrow> world \<Rightarrow> world" where
  \<comment> \<open>lines 361 to 368\<close>
  "teardown gone process w =
     (if process \<in> set (alive w) then
        (let listed = filter (\<lambda>c. c \<in> set (alive w)) (children w process);
             w1 = w\<lparr>alive := filter (\<lambda>p. p \<notin> set gone) (alive w)\<rparr>
         in case signal_all gone (listed @ [process]) w1 of
              (True, w2) \<Rightarrow> emit (Log Info) w2
            | (False, w2) \<Rightarrow> emit (Log Warning) w2)
      else emit (Log Warning) w)"

text \<open>
  \<^verbatim>\<open>cancel_any_download\<close>, for the callback data \<^verbatim>\<open>cancel_<task_id>\<close>. The two flags say
  whether \<^verbatim>\<open>query.answer\<close> and the final edit of the message return or raise; the result
  is the exception that leaves the handler, if any.
\<close>

definition cancel_any_download ::
  "bool \<Rightarrow> bool \<Rightarrow> pid list \<Rightarrow> task_id \<Rightarrow> world \<Rightarrow> exn option \<times> world" where
  "cancel_any_download answer_ok edit_ok gone task_id w0 =
     (let w1 = emit (QueryAnswer task_id) w0 in
      if \<not> answer_ok then (Some TelegramError, w1)
      else
        let process_info = map_of (active_processes w1) task_id;
            msg_to_edit = map_of (progress_messages w1) task_id;
            w2 = w1\<lparr>active_processes := AList.delete task_id (active_processes w1),
                    progress_messages := AList.delete task_id (progress_messages w1)\<rparr>;
            raised = (if edit_ok then None else Some TelegramError)
        in case process_info of
             Some (process, filename) \<Rightarrow>
               let w3 = teardown gone process w2;
                   w4 = (if files w3 filename \<noteq> None then remove_file filename w3 else w3)
               in (case msg_to_edit of
                     Some m \<Rightarrow> (raised, emit (EditText m (Cancelada filename)) w4)
                   | None \<Rightarrow> (None, w4))
           | None \<Rightarrow>
               (case msg_to_edit of
                  Some m \<Rightarrow> (raised, emit (EditText m YaFinalizada) w2)
                | None \<Rightarrow> (raised, emit (QueryEdit task_id NoEncontrada) w2)))"

section \<open>What happens while a task waits\<close>

text \<open>
  A task gives up control only at an \<^verbatim>\<open>await\<close>. What the event loop and the outside do
  meanwhile is a list of actions: a cancel callback handled from start to end (with the
  outcome of its two calls to the messaging service and the processes that end while it
  runs), the download process writing a file, a process ending by itself.
\<close>

datatype action = Cancel task_id bool bool "pid list" | Written path nat | Exited pid

fun run_action :: "action \<Rightarrow> world \<Rightarrow> world" where
  "run_action (Cancel task_id answer_ok edit_ok gone) w =
     snd (cancel_any_download answer_ok edit_ok gone task_id w)"
| "run_action (Written p n) w = w\<lparr>files := (files w)(p \<mapsto> n)\<rparr>"
| "run_action (Exited p) w = w\<lparr>alive := removeAll p (alive w)\<rparr>"

definition run_actions :: "action list \<Rightarrow> world \<Rightarrow> world" where
  "run_actions acts w = fold run_action acts w"

type_synonym await_unit = "action list \<times> bool"
  \<comment> \<open>what happens meanwhile, and whether the call returns (or raises)\<close>

definition edit_text :: "message \<Rightarrow> msg_text \<Rightarrow> await_unit \<Rightarrow> world \<Rightarrow> (exn + unit) \<times> world" where
  "edit_text m t r w =
     (let w1 = run_actions (fst r) (emit (EditText m t) w) in
      if snd r then (Inr (), w1) else (Inl TelegramError, emit (EditFailed m t) w1))"

section \<open>The environment of one task\<close>

record read_step =
  rs_meanwhile :: "action list"  \<comment> \<open>during \<^verbatim>\<open>process.stdout.read\<close>\<close>
  rs_text :: string  \<comment> \<open>the chunk, not empty, decoded\<close>
  rs_edit :: await_unit  \<comment> \<open>the progress update of this round, if it is made\<close>

record chunk_step =
  cs_meanwhile :: "action list"  \<comment> \<open>during \<^verbatim>\<open>request.next_chunk\<close>\<close>
  cs_progress :: int  \<comment> \<open>\<^verbatim>\<open>status.resumable_progress\<close>\<close>
  cs_now :: "int \<times> int"  \<comment> \<open>\<^verbatim>\<open>time.time()\<close>, a finite double\<close>
  cs_edit :: await_unit

datatype auth_result = Service | NoService | AuthRaises exn

type_synonym response = "(string \<times> string) list"

record env =
  size_text :: "pyfloat \<Rightarrow> exn + string"
    \<comment> \<open>\<^verbatim>\<open>human_readable_size\<close> on a value other than zero, computed with \<^verbatim>\<open>math.log\<close>\<close>
  e_start :: await_unit  \<comment> \<open>line 194\<close>
  e_spawn :: "action list \<times> (exn + pid)"  \<comment> \<open>line 208\<close>
  e_reads :: "read_step list"  \<comment> \<open>lines 220 to 244, one for each chunk read\<close>
  e_eof :: "action list"  \<comment> \<open>during the read that returns no bytes\<close>
  e_wait :: "action list"  \<comment> \<open>line 247\<close>
  e_returncode :: int
  e_done :: await_unit  \<comment> \<open>line 256\<close>
  e_auth :: "action list \<times> auth_result"  \<comment> \<open>line 131\<close>
  e_auth_edit :: await_unit  \<comment> \<open>line 133\<close>
  e_t0 :: "int \<times> int"  \<comment> \<open>line 146\<close>
  e_chunks :: "chunk_step list"  \<comment> \<open>lines 154 to 177, one for each chunk with a status\<close>
  e_last_chunk :: "action list \<times> (exn + response)"  \<comment> \<open>the chunk that ends the upload\<close>
  e_upload_error_edit :: await_unit  \<comment> \<open>line 185\<close>
  e_completed :: await_unit  \<comment> \<open>line 266\<close>
  e_stderr :: "action list \<times> string"  \<comment> \<open>line 271, the text decoded\<close>
  e_error_edit :: await_unit  \<comment> \<open>line 273\<close>
  e_unexpected_edit :: await_unit  \<comment> \<open>line 278\<close>

section \<open>The upload\<close>

definition human_readable_size :: "env \<Rightarrow> pyfloat \<Rightarrow> exn + string" where
  "human_readable_size E x =
     (case x of Fin m e \<Rightarrow> if m = 0 then Inr ''0B'' else size_text E x
      | PInf \<Rightarrow> size_text E x | NInf \<Rightarrow> size_text E x)"

definition upload_cancelled :: "task_id \<Rightarrow> message \<Rightarrow> world \<Rightarrow> bool" where
  \<comment> \<open>line 150\<close>
  "upload_cancelled task_id msg w =
     (map_of (active_processes w) task_id = None
      \<and> snd msg \<notin> set (map (\<lambda>kv. snd (snd kv)) (progress_messages w)))"

definition progress_text :: "env \<Rightarrow> string \<Rightarrow> int \<Rightarrow> int \<Rightarrow> pyfloat \<Rightarrow> int \<Rightarrow> exn + msg_text" where
  \<comment> \<open>lines 164 to 169\<close>
  "progress_text E drive_file_name resumable_progress media_size speed percentage =
     (case human_readable_size E (Fin resumable_progress 0) of
        Inl e \<Rightarrow> Inl e
      | Inr uploaded_t \<Rightarrow>
          (case human_readable_size E (Fin media_size 0) of
             Inl e \<Rightarrow> Inl e
           | Inr total_t \<Rightarrow>
               (case human_readable_size E speed of
                  Inl e \<Rightarrow> Inl e
                | Inr rate_t \<Rightarrow>
                    Inr (Subiendo drive_file_name (create_progress_bar percentage) percentage
                           uploaded_t total_t rate_t))))"

fun upload_loop ::
  "env \<Rightarrow> message \<Rightarrow> string \<Rightarrow> task_id \<Rightarrow> int \<Rightarrow> chunk_step list \<Rightarrow> int \<Rightarrow> int \<times> int \<Rightarrow> world
    \<Rightarrow> (exn + response option) \<times> world" where
  "upload_loop E msg name task_id media_size [] last_uploaded_bytes last_update_time w =
     (if upload_cancelled task_id msg w then (Inr None, emit (Log Info) w)
      else
        let w1 = run_actions (fst (e_last_chunk E)) (emit NextChunk w) in
        case snd (e_last_chunk E) of
          Inl e \<Rightarrow> (Inl e, w1)
        | Inr response \<Rightarrow> (Inr (Some response), w1))"
| "upload_loop E msg name task_id media_size (c # cs) last_uploaded_bytes last_update_time w =
     (if upload_cancelled task_id msg w then (Inr None, emit (Log Info) w)
      else
        let w1 = run_actions (cs_meanwhile c) (emit NextChunk w);
            elapsed_time = float_sub (cs_now c) last_update_time
        in case upload_speed (cs_progress c - last_uploaded_bytes) elapsed_time of
             Inl e \<Rightarrow> (Inl e, w1)
           | Inr speed \<Rightarrow>
               (case upload_percentage (cs_progress c) media_size of
                  Inl e \<Rightarrow> (Inl e, w1)
                | Inr percentage \<Rightarrow>
                    (case progress_text E name (cs_progress c) media_size speed percentage of
                       Inl e \<Rightarrow> (Inl e, w1)
                     | Inr t \<Rightarrow>
                         (case edit_text msg t (cs_edit c) w1 of
                            (Inl e, w2) \<Rightarrow>
                              upload_loop E msg name task_id media_size cs
                                (cs_progress c) (cs_now c) (emit (Log Warning) w2)
                          | (Inr u, w2) \<Rightarrow>
                              upload_loop E msg name task_id media_size cs
                                (cs_progress c) (cs_now c) w2))))"

definition upload_body ::
  "env \<Rightarrow> message \<Rightarrow> path \<Rightarrow> string \<Rightarrow> task_id \<Rightarrow> world \<Rightarrow> (exn + response option) \<times> world" where
  \<comment> \<open>lines 131 to 179\<close>
  "upload_body E msg file_path drive_file_name task_id w =
     (let w1 = run_actions (fst (e_auth E)) (emit Authenticate w) in
      case snd (e_auth E) of
        AuthRaises e \<Rightarrow> (Inl e, w1)
      | NoService \<Rightarrow>
          (case edit_text msg NoAutenticado (e_auth_edit E) w1 of
             (Inl e, w2) \<Rightarrow> (Inl e, w2)
           | (Inr u, w2) \<Rightarrow> (Inr None, w2))
      | Service \<Rightarrow>
          (case files w1 file_path of
             None \<Rightarrow> (Inl FileNotFoundError, w1)
           | Some media_size \<Rightarrow>
               upload_loop E msg drive_file_name task_id (int media_size) (e_chunks E) 0 (e_t0 E)
                 (emit (CreateRequest file_path drive_file_name) (emit (Log Info) w1))))"

definition upload_with_progress ::
  "env \<Rightarrow> message \<Rightarrow> path \<Rightarrow> string \<Rightarrow> task_id \<Rightarrow> world \<Rightarrow> response option \<times> world" where
  "upload_with_progress E msg file_path drive_file_name task_id w =
     (case upload_body E msg file_path drive_file_name task_id w of
        (Inr response, w1) \<Rightarrow> (response, w1)
      | (Inl e, w1) \<Rightarrow>
          (let w2 = emit (Log Failure) w1 in
           if map_of (progress_messages w2) task_id \<noteq> None
           then (None, snd (edit_text msg (ErrorSubida drive_file_name e) (e_upload_error_edit E) w2))
           else (None, w2)))"

section \<open>The task\<close>

record task_args =
  chat_id :: int
  url :: string
  quality_param :: "string list"
  file_name :: string
  task_id :: task_id
  initial_msg :: message

definition output_filename :: "task_args \<Rightarrow> path" where
  "output_filename a = file_name a @ ''.mp4''"

definition cmd_list :: "task_args \<Rightarrow> string list" where
  "cmd_list a =
     [''yt-dlp''] @ quality_param a @
     [''--remux-video'', ''mp4'',
      ''--add-header'', ''Origin: https://www.mediasetinfinity.es'',
      ''--add-header'', ''Referer: https://www.mediasetinfinity.es'',
      ''-o'', output_filename a, transform_mediaset_url (url a)]"

fun download_loop ::
  "task_args \<Rightarrow> action list \<Rightarrow> read_step list \<Rightarrow> string \<Rightarrow> int \<Rightarrow> world \<Rightarrow> (exn + unit) \<times> world" where
  "download_loop a eof [] buffer last_update_pct w =
     (if map_of (active_processes w) (task_id a) = None then (Inr (), emit (Log Info) w)
      else (Inr (), run_actions eof w))"
| "download_loop a eof (r # rs) buffer last_update_pct w =
     (if map_of (active_processes w) (task_id a) = None then (Inr (), emit (Log Info) w)
      else
        let w1 = run_actions (rs_meanwhile r) w;
            buffer1 = buffer @ rs_text r
        in if CHR 0x0D \<in> set buffer1 then
             (case parse_progress (last_frame buffer1) of
                Inl e \<Rightarrow> (Inl e, w1)
              | Inr None \<Rightarrow> download_loop a eof rs (last_frame buffer1) last_update_pct w1
              | Inr (Some (pct, size_t, speed_t, eta_t)) \<Rightarrow>
                  if last_update_pct < pct then
                    (case edit_text (initial_msg a)
                            (Descargando (file_name a) (create_progress_bar pct) pct
                               size_t speed_t eta_t)
                            (rs_edit r) w1 of
                       (Inl e, w2) \<Rightarrow>
                         download_loop a eof rs (last_frame buffer1) pct (emit (Log Warning) w2)
                     | (Inr u, w2) \<Rightarrow> download_loop a eof rs (last_frame buffer1) pct w2)
                  else download_loop a eof rs (last_frame buffer1) last_update_pct w1)
           else download_loop a eof rs buffer1 last_update_pct w1)"

definition download_phase :: "env \<Rightarrow> task_args \<Rightarrow> world \<Rightarrow> (exn + unit) \<times> world" where
  \<comment> \<open>lines 194 to 247\<close>
  "download_phase E a w =
     (case edit_text (initial_msg a) (Iniciando (file_name a)) (e_start E) w of
        (Inl e, w1) \<Rightarrow> (Inl e, w1)
      | (Inr u, w1) \<Rightarrow>
          (let w2 = run_actions (fst (e_spawn E)) (emit (Exec (cmd_list a)) (emit (Log Info) w1)) in
           case snd (e_spawn E) of
             Inl e \<Rightarrow> (Inl e, w2)
           | Inr process \<Rightarrow>
               (let w3 = w2\<lparr>alive := process # alive w2,
                              active_processes :=
                                AList.update (task_id a) (process, output_filename a)
                                  (active_processes w2)\<rparr>
                in case download_loop a (e_eof E) (e_reads E) [] (- 1) w3 of
                     (Inl e, w4) \<Rightarrow> (Inl e, w4)
                   | (Inr u, w4) \<Rightarrow>
                       (let w5 = run_actions (e_wait E) w4
                        in (Inr (), w5\<lparr>alive := removeAll process (alive w5)\<rparr>)))))"

definition finish_task :: "env \<Rightarrow> task_args \<Rightarrow> world \<Rightarrow> (exn + unit) \<times> world" where
  \<comment> \<open>lines 249 to 273\<close>
  "finish_task E a w =
     (if map_of (active_processes w) (task_id a) = None then (Inr (), emit (Log Info) w)
      else
        let w1 = w\<lparr>active_processes := AList.delete (task_id a) (active_processes w)\<rparr> in
        if e_returncode E = 0 \<and> files w1 (output_filename a) \<noteq> None then
          (case edit_text (initial_msg a) (DescargaCompleta (file_name a)) (e_done E) w1 of
             (Inl e, w2) \<Rightarrow> (Inl e, w2)
           | (Inr u, w2) \<Rightarrow>
               (case upload_with_progress E (initial_msg a) (output_filename a)
                       (output_filename a) (task_id a) w2 of
                  (None, w3) \<Rightarrow> (Inr (), w3)
                | (Some uploaded_file, w3) \<Rightarrow>
                    if uploaded_file = [] then (Inr (), w3)
                    else edit_text (initial_msg a)
                           (Completado (file_name a) (map_of uploaded_file ''webViewLink'')
                              (map_of uploaded_file ''id''))
                           (e_completed E) w3))
        else
          (let w2 = run_actions (fst (e_stderr E)) w1;
               stderr_text = strip (snd (e_stderr E))
           in if map_of (progress_messages w2) (task_id a) \<noteq> None
              then edit_text (initial_msg a)
                     (ErrorDescarga (file_name a) (take 1000 stderr_text)) (e_error_edit E) w2
              else (Inr (), w2)))"

definition try_body :: "env \<Rightarrow> task_args \<Rightarrow> world \<Rightarrow> (exn + unit) \<times> world" where
  "try_body E a w =
     (case download_phase E a w of
        (Inl e, w1) \<Rightarrow> (Inl e, w1)
      | (Inr u, w1) \<Rightarrow> finish_task E a w1)"

definition on_exception :: "env \<Rightarrow> task_args \<Rightarrow> exn \<Rightarrow> world \<Rightarrow> (exn + unit) \<times> world" where
  \<comment> \<open>lines 275 to 278\<close>
  "on_exception E a e w =
     (let w1 = emit (Log Failure) w in
      if map_of (progress_messages w1) (task_id a) \<noteq> None
      then edit_text (initial_msg a) (ErrorInesperado (file_name a) e) (e_unexpected_edit E) w1
      else (Inr (), w1))"

definition finalize :: "task_args \<Rightarrow> world \<Rightarrow> world" where
  \<comment> \<open>lines 279 to 283\<close>
  "finalize a w =
     (let w1 = w\<lparr>progress_messages := AList.delete (task_id a) (progress_messages w)\<rparr> in
      if files w1 (output_filename a) \<noteq> None
      then emit (Log Info) (remove_file (output_filename a) w1)
      else w1)"

text \<open>The result is the exception that leaves the coroutine, if any, and the world.\<close>

definition download_and_upload_task :: "env \<Rightarrow> task_args \<Rightarrow> world \<Rightarrow> exn option \<times> world" where
  "download_and_upload_task E a w =
     (case try_body E a w of
        (Inr u, w1) \<Rightarrow> (None, finalize a w1)
      | (Inl e, w1) \<Rightarrow>
          (case on_exception E a e w1 of
             (Inr u, w2) \<Rightarrow> (None, finalize a w2)
           | (Inl e2, w2) \<Rightarrow> (Some e2, finalize a w2)))"

section \<open>Auxiliary notions\<close>

text \<open>The three texts the URL pattern matches, and the shape of their proper tails.\<close>


definition mediaset_matches :: "string list" where
  "mediaset_matches = [''/mpd-cenc.ism/web.mpd'', ''/mpd-cenc.ism/ctv.mpd'', ''/mpd-cenc.ism/.mpd'']"


definition hls_suffix :: string where
  "hls_suffix = ''/main.ism/picky.m3u8''"

definition tail_like :: "string \<Rightarrow> bool" where
  "tail_like m \<longleftrightarrow> m \<noteq> [] \<and> CHR ''a'' \<notin> set m \<and> last m = CHR ''d''"


text \<open>
  Effects a cancel handler can have; with the mark of an edit that raised, the effects that
  show no percentage and transfer nothing. Then the calls that transfer a file.
\<close>

fun handler_effect :: "effect \<Rightarrow> bool" where
  "handler_effect (QueryAnswer t) = True"
| "handler_effect (QueryEdit t x) = True"
| "handler_effect (Terminate p) = True"
| "handler_effect (Remove p) = True"
| "handler_effect (Log l) = True"
| "handler_effect (EditText m (Cancelada f)) = True"
| "handler_effect (EditText m YaFinalizada) = True"
| "handler_effect e = False"

fun quiet_effect :: "effect \<Rightarrow> bool" where
  "quiet_effect (EditFailed m t) = True"
| "quiet_effect e = handler_effect e"

fun is_transfer :: "effect \<Rightarrow> bool" where
  "is_transfer (CreateRequest p n) = True"
| "is_transfer NextChunk = True"
| "is_transfer e = False"


text \<open>A task with nothing going wrong around it, and worlds to run it in.\<close>

definition plain_env :: env where
  "plain_env = \<lparr>size_text = (\<lambda>x. Inr ''1 KB''), e_start = ([], True), e_spawn = ([], Inr 7),
     e_reads = [], e_eof = [], e_wait = [], e_returncode = 0, e_done = ([], True),
     e_auth = ([], Service), e_auth_edit = ([], True), e_t0 = (0, 0), e_chunks = [],
     e_last_chunk = ([], Inr [(''id'', ''F1''), (''webViewLink'', ''https://drive/F1'')]),
     e_upload_error_edit = ([], True), e_completed = ([], True), e_stderr = ([], []),
     e_error_edit = ([], True), e_unexpected_edit = ([], True)\<rparr>"

definition some_args :: task_args where
  "some_args = \<lparr>chat_id = 1, url = ''https://example.com/v'',
     quality_param = [''-f'', ''bestvideo+bestaudio/best''], file_name = ''video'',
     task_id = ''t1'', initial_msg = (1, 10)\<rparr>"

definition start_world :: world where
  "start_world = \<lparr>active_processes = [], progress_messages = [(''t1'', (1, 10))],
     files = Map.empty, alive = [], children = (\<lambda>p. []), trace = []\<rparr>"

definition busy_world :: world where
  \<comment> \<open>the download of task \<open>t1\<close> runs as process 7 with a child 8, and has written a file\<close>
  "busy_world = \<lparr>active_processes = [(''t1'', 7, ''video.mp4'')],
     progress_messages = [(''t1'', (1, 10))],
     files = [''video.mp4'' \<mapsto> 5], alive = [7, 8],
     children = (\<lambda>p. if p = 7 then [8] else []), trace = []\<rparr>"

text \<open>The percentages the download shows, in order.\<close>

fun shown_pct :: "effect \<Rightarrow> int list" where
  "shown_pct (EditText m (Descargando n b pct s v t)) = [pct]"
| "shown_pct e = []"

definition download_pcts :: "effect list \<Rightarrow> int list" where
  "download_pcts es = concat (map shown_pct es)"


text \<open>The calls of the upload, and what happens while the download is awaited.\<close>

fun is_upload_call :: "effect \<Rightarrow> bool" where
  "is_upload_call Authenticate = True"
| "is_upload_call (CreateRequest p n) = True"
| "is_upload_call NextChunk = True"
| "is_upload_call e = False"

definition upload_calls :: "world \<Rightarrow> effect list" where
  "upload_calls w = filter is_upload_call (trace w)"

definition download_awaits :: "env \<Rightarrow> action list" where
  "download_awaits E = concat (map rs_meanwhile (e_reads E)) @ e_eof E @ e_wait E"


definition uploading_env :: env where
  "uploading_env = plain_env\<lparr>e_eof := [Written ''video.mp4'' 100]\<rparr>"

definition early_cancel_env :: env where
  \<comment> \<open>the operator cancels while the process is being started, line 208\<close>
  "early_cancel_env = uploading_env\<lparr>e_spawn := ([Cancel ''t1'' True True []], Inr 7)\<rparr>"

definition late_cancel_env :: env where
  \<comment> \<open>the operator cancels while the task waits for output, line 220\<close>
  "late_cancel_env =
     uploading_env\<lparr>e_eof := [Written ''video.mp4'' 100, Cancel ''t1'' True True []]\<rparr>"


text \<open>Runs that differ in the delivery of progress updates only.\<close>

definition calm :: "env \<Rightarrow> env" where
  \<comment> \<open>the same environment, but every progress update is delivered\<close>
  "calm E = E\<lparr>e_reads := map (\<lambda>r. r\<lparr>rs_edit := (fst (rs_edit r), True)\<rparr>) (e_reads E),
              e_chunks := map (\<lambda>c. c\<lparr>cs_edit := (fst (cs_edit c), True)\<rparr>) (e_chunks E)\<rparr>"

fun is_progress_text :: "msg_text \<Rightarrow> bool" where
  "is_progress_text (Descargando n b pct s v t) = True"
| "is_progress_text (Subiendo n b pct u t v) = True"
| "is_progress_text x = False"

fun progress_failure :: "effect \<Rightarrow> bool" where
  \<comment> \<open>a progress update raised\<close>
  "progress_failure (EditFailed m t) = is_progress_text t"
| "progress_failure e = False"

fun failures_logged :: "effect list \<Rightarrow> bool" where
  \<comment> \<open>the effect right after every progress update that raised is a warning in the log\<close>
  "failures_logged [] = True"
| "failures_logged [e] = (\<not> progress_failure e)"
| "failures_logged (e # f # es) =
     ((if progress_failure e then f = Log Warning else True) \<and> failures_logged (f # es))"

definition delivery_noise :: "effect \<Rightarrow> bool" where
  "delivery_noise e \<longleftrightarrow> e = Log Warning \<or> progress_failure e"

definition same_outcome :: "world \<Rightarrow> world \<Rightarrow> bool" where
  \<comment> \<open>equal but for the progress updates that raised and the warnings logged\<close>
  "same_outcome w1 w2 \<longleftrightarrow>
     active_processes w1 = active_processes w2 \<and> progress_messages w1 = progress_messages w2
     \<and> files w1 = files w2 \<and> alive w1 = alive w2 \<and> children w1 = children w2
     \<and> filter (\<lambda>e. \<not> delivery_noise e) (trace w1)
         = filter (\<lambda>e. \<not> delivery_noise e) (trace w2)"

definition same_result :: "'a \<times> world \<Rightarrow> 'a \<times> world \<Rightarrow> bool" where
  "same_result x y \<longleftrightarrow> fst x = fst y \<and> same_outcome (snd x) (snd y)"

definition logged_since :: "world \<Rightarrow> world \<Rightarrow> bool" where
  \<comment> \<open>the trace has grown, and every progress update that raised since is logged\<close>
  "logged_since w w' \<longleftrightarrow>
     take (length (trace w)) (trace w') = trace w
     \<and> failures_logged (drop (length (trace w)) (trace w'))"


text \<open>Runs that end badly.\<close>

definition flaky_env :: env where
  \<comment> \<open>one frame of progress is read, and its update is not delivered\<close>
  "flaky_env = plain_env\<lparr>e_reads :=
     [\<lparr>rs_meanwhile = [],
       rs_text = CHR 0x0D # ''[download]  42.0% of ~100.0MiB at 5.0MiB/s ETA 00:10'',
       rs_edit = ([], False)\<rparr>]\<rparr>"

definition bad_frame_env :: env where
  "bad_frame_env = plain_env\<lparr>e_reads :=
     [\<lparr>rs_meanwhile = [], rs_text = CHR 0x0D # ''[download] 1.2.3% of 1MiB at 1MiB/s ETA 0'',
       rs_edit = ([], True)\<rparr>]\<rparr>"


definition stderr_tail :: "nat \<Rightarrow> string \<Rightarrow> string" where
  \<comment> \<open>in the words of the specification: the last \<open>n\<close> characters of standard error\<close>
  "stderr_tail n s = drop (length s - n) s"

definition long_stderr :: string where
  "long_stderr = replicate 1000 (CHR ''a'') @ replicate 1000 (CHR ''b'')"

definition failing_env :: env where
  "failing_env = plain_env\<lparr>e_returncode := 1, e_stderr := ([], long_stderr)\<rparr>"

definition short_failing_env :: env where
  "short_failing_env = plain_env\<lparr>e_returncode := 1, e_stderr := ([], ''  ERROR: no formats  '')\<rparr>"

definition after_stderr :: "env \<Rightarrow> task_args \<Rightarrow> world \<Rightarrow> world" where
  \<comment> \<open>the world when the error output of the process has been read, line 271\<close>
  "after_stderr E a w =
     run_actions (fst (e_stderr E))
       (w\<lparr>active_processes := AList.delete (task_id a) (active_processes w)\<rparr>)"


section \<open>The URL rewriting is idempotent\<close>

lemma match_here_mediaset:
  "match_here mediaset_pattern s = Some (s', g) \<Longrightarrow> \<exists>m \<in> set mediaset_matches. s = m @ s'"
  by (auto simp: match_here_def mediaset_pattern_def mediaset_matches_def prefix_def split: if_splits list.splits)

lemma match_here_mediaset_conv:
  "match_here mediaset_pattern s \<noteq> None \<longleftrightarrow> (\<exists>m \<in> set mediaset_matches. prefix m s)"
  by (auto simp: match_here_def mediaset_pattern_def mediaset_matches_def prefix_def split: if_splits list.splits)

lemma tail_like_not_in_hls: "tail_like m \<Longrightarrow> \<not> prefix m (hls_suffix @ t)"
proof
  assume t: "tail_like m" and p: "prefix m (hls_suffix @ t)"
  from t obtain x xs where m: "m = x # xs" by (cases m) (auto simp: tail_like_def)
  show False
  proof (cases xs)
    case Nil with t p m show False by (simp add: tail_like_def hls_suffix_def)
  next
    case (Cons y ys)
    show False
    proof (cases ys)
      case Nil with t p m Cons show False by (simp add: tail_like_def hls_suffix_def)
    next
      case (Cons z zs)
      with t p m \<open>xs = y # ys\<close> show False by (auto simp add: tail_like_def hls_suffix_def)
    qed
  qed
qed

lemma tail_like_tl: "tail_like (c # m) \<Longrightarrow> m \<noteq> [] \<Longrightarrow> tail_like m"
  by (auto simp: tail_like_def)

lemma re_sub_Nil: "re_sub mediaset_pattern repl [] = []"
proof -
  have "match_here mediaset_pattern [] = None"
    by (simp add: match_here_def mediaset_pattern_def)
  then show ?thesis by (subst re_sub.simps) simp
qed

lemma re_sub_unfold:
  "re_sub mediaset_pattern repl (c # cs) =
     (case match_here mediaset_pattern (c # cs) of
        Some (s', g) \<Rightarrow> repl @ re_sub mediaset_pattern repl s'
      | None \<Rightarrow> c # re_sub mediaset_pattern repl cs)"
proof (cases "match_here mediaset_pattern (c # cs)")
  case None then show ?thesis by (subst re_sub.simps) simp
next
  case (Some a)
  obtain s' g where a: "a = (s', g)" by (cases a)
  with Some match_here_mediaset obtain m where "m \<in> set mediaset_matches" "c # cs = m @ s'" by blast
  then have "length s' < length (c # cs)" by (auto simp: mediaset_matches_def)
  with Some a show ?thesis by (subst re_sub.simps) simp
qed

lemma prefix_re_sub:
  "tail_like m \<Longrightarrow> prefix m (re_sub mediaset_pattern hls_suffix s) \<Longrightarrow> prefix m s"
proof (induction s arbitrary: m rule: length_induct)
  case (1 s)
  show ?case
  proof (cases s)
    case Nil
    with 1 show ?thesis by (simp add: re_sub_Nil)
  next
    case (Cons c cs)
    show ?thesis
    proof (cases "match_here mediaset_pattern (c # cs)")
      case (Some a)
      then have "\<exists>t. re_sub mediaset_pattern hls_suffix s = hls_suffix @ t"
        by (cases a) (simp add: Cons re_sub_unfold)
      with 1(2,3) tail_like_not_in_hls show ?thesis by metis
    next
      case None
      then have eq: "re_sub mediaset_pattern hls_suffix s = c # re_sub mediaset_pattern hls_suffix cs"
        by (simp add: Cons re_sub_unfold)
      from 1(2) obtain x xs where m: "m = x # xs" by (cases m) (auto simp: tail_like_def)
      with 1(3) eq have xc: "x = c" and p: "prefix xs (re_sub mediaset_pattern hls_suffix cs)" by auto
      show ?thesis
      proof (cases "xs = []")
        case True with m xc Cons show ?thesis by simp
      next
        case False
        with 1(2) m have "tail_like xs" using tail_like_tl by blast
        with 1(1) p Cons have "prefix xs cs" by auto
        with m xc Cons show ?thesis by simp
      qed
    qed
  qed
qed

lemma re_search_hls: "re_search mediaset_pattern (hls_suffix @ t) = re_search mediaset_pattern t"
proof -
  have n: "\<And>s. \<not> (\<exists>m \<in> set mediaset_matches. prefix m s) \<Longrightarrow> match_here mediaset_pattern s = None"
    using match_here_mediaset_conv by blast
  show ?thesis
    unfolding hls_suffix_def
    by (simp add: n mediaset_matches_def)
qed

lemma re_search_re_sub: "re_search mediaset_pattern (re_sub mediaset_pattern hls_suffix s) = None"
proof (induction s rule: length_induct)
  case (1 s)
  show ?case
  proof (cases s)
    case Nil
    have "match_here mediaset_pattern [] = None"
      by (simp add: match_here_def mediaset_pattern_def)
    with Nil show ?thesis by (simp add: re_sub_Nil)
  next
    case (Cons c cs)
    show ?thesis
    proof (cases "match_here mediaset_pattern (c # cs)")
      case (Some a)
      obtain s' g where a: "a = (s', g)" by (cases a)
      with Some match_here_mediaset obtain m where "m \<in> set mediaset_matches" "c # cs = m @ s'" by blast
      then have "length s' < length s" by (auto simp: mediaset_matches_def Cons)
      with 1 have "re_search mediaset_pattern (re_sub mediaset_pattern hls_suffix s') = None" by blast
      with Some a Cons show ?thesis by (simp add: re_sub_unfold re_search_hls)
    next
      case None
      have ih: "re_search mediaset_pattern (re_sub mediaset_pattern hls_suffix cs) = None"
        using 1 Cons by simp
      have "match_here mediaset_pattern (c # re_sub mediaset_pattern hls_suffix cs) = None"
      proof (rule ccontr)
        assume "match_here mediaset_pattern (c # re_sub mediaset_pattern hls_suffix cs) \<noteq> None"
        then obtain m where mm: "m \<in> set mediaset_matches"
          and p: "prefix m (c # re_sub mediaset_pattern hls_suffix cs)"
          using match_here_mediaset_conv by blast
        from mm obtain m' where m: "m = CHR ''/'' # m'" and t: "tail_like m'"
          by (auto simp: mediaset_matches_def tail_like_def)
        with p have "c = CHR ''/''" "prefix m' (re_sub mediaset_pattern hls_suffix cs)" by auto
        with t prefix_re_sub have "prefix m' cs" by blast
        with m \<open>c = CHR ''/''\<close> have "prefix m (c # cs)" by simp
        with mm match_here_mediaset_conv have "match_here mediaset_pattern (c # cs) \<noteq> None" by blast
        with None show False by simp
      qed
      with ih None Cons show ?thesis by (simp add: re_sub_unfold)
    qed
  qed
qed

text \<open>
  Claim C10. The URL rewriting returns every URL in which the pattern
  \<^verbatim>\<open>(/mpd-cenc\.ism)/(web|ctv)?(\.mpd)\<close> has no match unchanged, and it is idempotent: rewriting a
  rewritten URL changes nothing, for every URL.
\<close>

theorem transform_mediaset_url_idem:
  "(re_search mediaset_pattern u = None \<longrightarrow> transform_mediaset_url u = u)
   \<and> transform_mediaset_url (transform_mediaset_url u) = transform_mediaset_url u"
  using re_search_re_sub [of u]
  by (simp add: transform_mediaset_url_def hls_suffix_def)

theorem transform_mediaset_url_idem_witness:
  "re_search mediaset_pattern ''http://a/b.mpd'' = None
   \<and> transform_mediaset_url ''http://a/b.mpd'' = ''http://a/b.mpd''
   \<and> transform_mediaset_url (transform_mediaset_url ''http://a/b.mpd'')
       = transform_mediaset_url ''http://a/b.mpd''"
proof -
  have n: "re_search mediaset_pattern ''http://a/b.mpd'' = None"
    by (simp add: match_here_def mediaset_pattern_def)
  with transform_mediaset_url_idem [of "''http://a/b.mpd''"] show ?thesis by simp
qed

section \<open>Cancelling a task\<close>

lemma emit_fields [simp]:
  "active_processes (emit e w) = active_processes w"
  "progress_messages (emit e w) = progress_messages w"
  "files (emit e w) = files w"
  "alive (emit e w) = alive w"
  "children (emit e w) = children w"
  "trace (emit e w) = trace w @ [e]"
  by (simp_all add: emit_def)

lemma remove_file_fields [simp]:
  "active_processes (remove_file p w) = active_processes w"
  "progress_messages (remove_file p w) = progress_messages w"
  "files (remove_file p w) = (files w)(p := None)"
  "alive (remove_file p w) = alive w"
  "children (remove_file p w) = children w"
  "trace (remove_file p w) = trace w @ [Remove p]"
  by (simp_all add: remove_file_def)

lemma terminate_fields [simp]:
  "active_processes (terminate p w) = active_processes w"
  "progress_messages (terminate p w) = progress_messages w"
  "files (terminate p w) = files w"
  "alive (terminate p w) = removeAll p (alive w)"
  "children (terminate p w) = children w"
  "trace (terminate p w) = trace w @ [Terminate p]"
  by (simp_all add: terminate_def)

lemma fold_terminate_fields [simp]:
  "active_processes (fold terminate cs w) = active_processes w"
  "progress_messages (fold terminate cs w) = progress_messages w"
  "files (fold terminate cs w) = files w"
  "alive (fold terminate cs w) = filter (\<lambda>p. p \<notin> set cs) (alive w)"
  "children (fold terminate cs w) = children w"
  "trace (fold terminate cs w) = trace w @ map Terminate cs"
  by (induction cs arbitrary: w; simp add: removeAll_filter_not_eq conj_commute; metis)+

lemma signal_all_fields [simp]:
  "active_processes (snd (signal_all gone ps w)) = active_processes w"
  "progress_messages (snd (signal_all gone ps w)) = progress_messages w"
  "files (snd (signal_all gone ps w)) = files w"
  "children (snd (signal_all gone ps w)) = children w"
  by (induction ps arbitrary: w; simp)+

lemma signal_all_undisturbed:
  "set ps \<inter> set gone = {} \<Longrightarrow> signal_all gone ps w = (True, fold terminate ps w)"
  by (induction ps arbitrary: w) auto

lemma signal_all_alive: "set (alive (snd (signal_all gone ps w))) \<subseteq> set (alive w)"
proof (induction ps arbitrary: w)
  case Nil
  then show ?case by simp
next
  case (Cons p ps)
  have "set (alive (snd (signal_all gone ps (terminate p w)))) \<subseteq> set (alive (terminate p w))"
    by (rule Cons.IH)
  then show ?case by auto
qed

lemma teardown_fields [simp]:
  "active_processes (teardown gone p w) = active_processes w"
  "progress_messages (teardown gone p w) = progress_messages w"
  "files (teardown gone p w) = files w"
  "children (teardown gone p w) = children w"
  by (simp_all add: teardown_def Let_def case_prod_unfold split: bool.splits)

lemma teardown_undisturbed:
  assumes "p \<in> set (alive w)" "set (p # children w p) \<inter> set gone = {}"
  shows "teardown gone p w =
    emit (Log Info)
      (fold terminate (filter (\<lambda>c. c \<in> set (alive w)) (children w p) @ [p])
         (w\<lparr>alive := filter (\<lambda>p. p \<notin> set gone) (alive w)\<rparr>))"
proof -
  have "set (filter (\<lambda>c. c \<in> set (alive w)) (children w p) @ [p]) \<inter> set gone = {}"
    using assms(2) by auto
  then have "signal_all gone (filter (\<lambda>c. c \<in> set (alive w)) (children w p) @ [p]) v
      = (True, fold terminate (filter (\<lambda>c. c \<in> set (alive w)) (children w p) @ [p]) v)" for v
    by (rule signal_all_undisturbed)
  then show ?thesis
    using assms(1) by (simp add: teardown_def Let_def)
qed

lemma map_of_delete_same [simp]: "map_of (AList.delete k xs) k = None"
  by (simp add: delete_conv')

lemma map_of_delete_keeps: "map_of xs k = None \<Longrightarrow> map_of (AList.delete j xs) k = None"
  by (simp add: delete_conv')

text \<open>
  What a cancel does when its acknowledgement returns: the task is removed from both
  dictionaries and, if it had a process handle, its file no longer exists. If moreover the
  process was alive and neither it nor a child of it ended by itself meanwhile, the process
  was sent a termination signal and neither it nor a child of it is alive. A second cancel
  for the same task id only answers the callback and reports that no active download was
  found.
\<close>

lemma cancel_any_download_teardown:
  assumes "cancel_any_download True edit_ok gone tid w = (r, w')"
  shows "map_of (active_processes w') tid = None \<and> map_of (progress_messages w') tid = None
    \<and> (\<forall>p f. map_of (active_processes w) tid = Some (p, f) \<longrightarrow>
          files w' f = None
          \<and> (p \<in> set (alive w) \<and> set (p # children w p) \<inter> set gone = {} \<longrightarrow>
                Terminate p \<in> set (trace w') \<and> p \<notin> set (alive w')
                \<and> (\<forall>c \<in> set (children w p). c \<notin> set (alive w'))))
    \<and> cancel_any_download True edit_ok2 gone2 tid w' =
        (if edit_ok2 then None else Some TelegramError,
         w'\<lparr>trace := trace w' @ [QueryAnswer tid, QueryEdit tid NoEncontrada]\<rparr>)"
proof -
  have reg: "map_of (active_processes w') tid = None \<and> map_of (progress_messages w') tid = None"
    using assms
    by (auto simp: cancel_any_download_def Let_def case_prod_unfold split: option.splits if_splits)
  have gone_file: "files w' f = None" if "map_of (active_processes w) tid = Some (p, f)" for p f
    using assms that
    by (auto simp: cancel_any_download_def Let_def case_prod_unfold split: option.splits if_splits)
  have proc: "Terminate p \<in> set (trace w') \<and> p \<notin> set (alive w')
       \<and> (\<forall>c \<in> set (children w p). c \<notin> set (alive w'))"
    if h: "map_of (active_processes w) tid = Some (p, f)" "p \<in> set (alive w)"
      "set (p # children w p) \<inter> set gone = {}" for p f
  proof -
    let ?w2 = "(emit (QueryAnswer tid) w)\<lparr>active_processes := AList.delete tid (active_processes w),
        progress_messages := AList.delete tid (progress_messages w)\<rparr>"
    have t: "teardown gone p ?w2 =
      emit (Log Info)
        (fold terminate (filter (\<lambda>c. c \<in> set (alive ?w2)) (children ?w2 p) @ [p])
           (?w2\<lparr>alive := filter (\<lambda>p. p \<notin> set gone) (alive ?w2)\<rparr>))"
      using h(2,3) by (intro teardown_undisturbed) simp_all
    show ?thesis
      using assms h(1)
      by (auto simp: cancel_any_download_def Let_def t split: option.splits if_splits)
  qed
  have again: "cancel_any_download True edit_ok2 gone2 tid w' =
        (if edit_ok2 then None else Some TelegramError,
         w'\<lparr>trace := trace w' @ [QueryAnswer tid, QueryEdit tid NoEncontrada]\<rparr>)"
  proof -
    have d1: "AList.delete tid (active_processes w') = active_processes w'"
      using reg by (simp add: delete_id map_of_eq_None_iff)
    have d2: "AList.delete tid (progress_messages w') = progress_messages w'"
      using reg by (simp add: delete_id map_of_eq_None_iff)
    show ?thesis
      by (simp add: cancel_any_download_def Let_def emit_def reg d1 d2)
  qed
  from reg gone_file proc again show ?thesis by blast
qed

text \<open>
  Claim C4. Task \<open>t1\<close> downloads as process 7, which has the child 8 and has written
  \<^verbatim>\<open>video.mp4\<close>. When the operator cancels it and no process ends meanwhile, the child
  and the parent are sent a signal, the file is deleted and the task is removed from both
  dictionaries. But let the child end by itself after the children were listed and before
  its signal: the signal to the child raises \<^verbatim>\<open>NoSuchProcess\<close>, the
  handler logs that the process no longer existed, and the parent is sent no signal and is
  still alive, while the task is removed from both dictionaries, the file is deleted and
  the operator is told that the download was cancelled. And when the acknowledgement of the
  callback raises, the handler ends there: the task stays in both dictionaries, with its
  process and its file.
\<close>

theorem cancel_any_download_child_gone:
  "map_of (active_processes busy_world) ''t1'' = Some (7, ''video.mp4'')
   \<and> children busy_world 7 = [8]
   \<and> cancel_any_download True True [] ''t1'' busy_world =
       (None, busy_world\<lparr>active_processes := [], progress_messages := [],
                files := Map.empty, alive := [],
                trace := [QueryAnswer ''t1'', Terminate 8, Terminate 7, Log Info,
                          Remove ''video.mp4'', EditText (1, 10) (Cancelada ''video.mp4'')]\<rparr>)
   \<and> cancel_any_download True True [8] ''t1'' busy_world =
       (None, busy_world\<lparr>active_processes := [], progress_messages := [],
                files := Map.empty, alive := [7],
                trace := [QueryAnswer ''t1'', Log Warning, Remove ''video.mp4'',
                          EditText (1, 10) (Cancelada ''video.mp4'')]\<rparr>)
   \<and> cancel_any_download False True [] ''t1'' busy_world =
       (Some TelegramError, busy_world\<lparr>trace := [QueryAnswer ''t1'']\<rparr>)"
  by (simp add: cancel_any_download_def teardown_def busy_world_def emit_def remove_file_def
        terminate_def Let_def)

section \<open>What is added to the trace\<close>

lemma signal_all_trace:
  "\<exists>es. trace (snd (signal_all gone ps w)) = trace w @ es \<and> list_all handler_effect es"
proof (induction ps arbitrary: w)
  case Nil
  then show ?case by simp
next
  case (Cons p ps)
  obtain es where "trace (snd (signal_all gone ps (terminate p w))) = trace (terminate p w) @ es"
    "list_all handler_effect es"
    using Cons.IH by blast
  then have "trace (snd (signal_all gone ps (terminate p w))) = trace w @ (Terminate p # es)
      \<and> list_all handler_effect (Terminate p # es)"
    by simp
  then show ?case by (cases "p \<in> set gone") auto
qed

lemma teardown_trace:
  "\<exists>es. trace (teardown gone p w) = trace w @ es \<and> list_all handler_effect es"
proof (cases "p \<in> set (alive w)")
  case False
  then show ?thesis by (simp add: teardown_def)
next
  case True
  let ?s = "signal_all gone (filter (\<lambda>c. c \<in> set (alive w)) (children w p) @ [p])
     (w\<lparr>alive := filter (\<lambda>p. p \<notin> set gone) (alive w)\<rparr>)"
  obtain es where es: "trace (snd ?s) = trace w @ es" "list_all handler_effect es"
    using signal_all_trace [of gone _ "w\<lparr>alive := filter (\<lambda>p. p \<notin> set gone) (alive w)\<rparr>"]
    by auto
  have "trace (teardown gone p w) = trace (snd ?s) @ [Log (if fst ?s then Info else Warning)]"
    using True by (simp add: teardown_def Let_def case_prod_unfold)
  with es have "trace (teardown gone p w) = trace w @ (es @ [Log (if fst ?s then Info else Warning)])
     \<and> list_all handler_effect (es @ [Log (if fst ?s then Info else Warning)])"
    by simp
  then show ?thesis by blast
qed

lemma cancel_trace:
  "\<exists>es. trace (snd (cancel_any_download x y g t w)) = trace w @ es \<and> list_all handler_effect es"
proof (cases x)
  case False
  then show ?thesis by (simp add: cancel_any_download_def)
next
  case True
  let ?w2 = "(emit (QueryAnswer t) w)\<lparr>active_processes := AList.delete t (active_processes w),
        progress_messages := AList.delete t (progress_messages w)\<rparr>"
  show ?thesis
  proof (cases "map_of (active_processes w) t")
    case None
    then show ?thesis
      using True
      by (cases "map_of (progress_messages w) t") (simp_all add: cancel_any_download_def Let_def)
  next
    case (Some pf)
    obtain p f where pf: "pf = (p, f)" by (cases pf)
    obtain es where es: "trace (teardown g p ?w2) = trace ?w2 @ es" "list_all handler_effect es"
      using teardown_trace by blast
    show ?thesis
      using True Some pf es
      by (cases "map_of (progress_messages w) t")
        (auto simp: cancel_any_download_def Let_def)
  qed
qed

lemma run_action_trace:
  "\<exists>es. trace (run_action act w) = trace w @ es \<and> list_all handler_effect es"
  using cancel_trace by (cases act) auto

lemma run_actions_handler:
  "\<exists>es. trace (run_actions acts w) = trace w @ es \<and> list_all handler_effect es"
proof (induction acts arbitrary: w)
  case Nil
  then show ?case by (simp add: run_actions_def)
next
  case (Cons act acts)
  obtain es1 where 1: "trace (run_action act w) = trace w @ es1" "list_all handler_effect es1"
    using run_action_trace by blast
  obtain es2 where 2: "trace (run_actions acts (run_action act w)) = trace (run_action act w) @ es2"
    "list_all handler_effect es2"
    using Cons.IH by blast
  have "run_actions (act # acts) w = run_actions acts (run_action act w)"
    by (simp add: run_actions_def)
  with 1 2 have "trace (run_actions (act # acts) w) = trace w @ (es1 @ es2) \<and> list_all handler_effect (es1 @ es2)"
    by simp
  then show ?case by blast
qed

lemma handler_quiet: "handler_effect e \<Longrightarrow> quiet_effect e"
  by (cases e) auto

lemma run_actions_trace:
  "\<exists>es. trace (run_actions acts w) = trace w @ es \<and> list_all quiet_effect es"
proof -
  obtain es where "trace (run_actions acts w) = trace w @ es" "list_all handler_effect es"
    using run_actions_handler by blast
  then have "trace (run_actions acts w) = trace w @ es \<and> list_all quiet_effect es"
    by (auto simp: list_all_iff handler_quiet)
  then show ?thesis by blast
qed

lemma filter_run_actions:
  assumes "\<And>e. quiet_effect e \<Longrightarrow> \<not> P e"
  shows "filter P (trace (run_actions acts w)) = filter P (trace w)"
proof -
  obtain es where "trace (run_actions acts w) = trace w @ es" "list_all quiet_effect es"
    using run_actions_trace by blast
  moreover from this assms have "filter P es = []"
    by (auto simp: list_all_iff filter_empty_conv)
  ultimately show ?thesis by simp
qed

lemma filter_edit_text:
  assumes "\<And>e. quiet_effect e \<Longrightarrow> \<not> P e"
  shows "filter P (trace (snd (edit_text m t r w))) = filter P (trace w @ [EditText m t])"
  using filter_run_actions [OF assms] assms [of "EditFailed m t"]
  by (simp add: edit_text_def Let_def)

lemma transfer_quiet: "quiet_effect e \<Longrightarrow> \<not> is_transfer e"
  by (cases e) auto

lemma transfer_run_actions [simp]:
  "filter is_transfer (trace (run_actions acts w)) = filter is_transfer (trace w)"
  by (rule filter_run_actions) (rule transfer_quiet)

lemma transfer_edit_text [simp]:
  "filter is_transfer (trace (snd (edit_text m t r w))) = filter is_transfer (trace w)"
  by (simp add: filter_edit_text [of is_transfer] transfer_quiet)

text \<open>
  Claim C8. When the credential provider returns no service, the upload returns nothing
  (its failure value) and neither creates an upload request nor asks for a chunk: the
  transfer calls in the trace are the ones that were there before.
\<close>

theorem upload_without_credential:
  assumes "snd (e_auth E) = NoService"
  shows "fst (upload_with_progress E msg file_path name tid w) = None
    \<and> filter is_transfer (trace (snd (upload_with_progress E msg file_path name tid w)))
        = filter is_transfer (trace w)"
proof -
  define w1 where "w1 = run_actions (fst (e_auth E)) (emit Authenticate w)"
  obtain r w2 where ed: "edit_text msg NoAutenticado (e_auth_edit E) w1 = (r, w2)"
    by fastforce
  have t1: "filter is_transfer (trace w1) = filter is_transfer (trace w)"
    by (simp add: w1_def)
  have t2: "filter is_transfer (trace w2) = filter is_transfer (trace w)"
    using transfer_edit_text [of msg NoAutenticado "e_auth_edit E" w1] ed t1
    by simp
  have body: "upload_body E msg file_path name tid w = (case r of Inl e \<Rightarrow> Inl e | Inr u \<Rightarrow> Inr None, w2)"
    using assms ed by (simp add: upload_body_def w1_def [symmetric] split: sum.splits)
  show ?thesis
  proof (cases r)
    case (Inl e)
    then show ?thesis
      using body t2
      by (simp add: upload_with_progress_def Let_def)
  next
    case (Inr u)
    then show ?thesis
      using body t2 by (simp add: upload_with_progress_def)
  qed
qed

theorem upload_without_credential_witness:
  "snd (e_auth (plain_env\<lparr>e_auth := ([], NoService)\<rparr>)) = NoService
   \<and> fst (upload_with_progress (plain_env\<lparr>e_auth := ([], NoService)\<rparr>) (1, 10)
            ''video.mp4'' ''video.mp4'' ''t1'' start_world) = None
   \<and> filter is_transfer
        (trace (snd (upload_with_progress (plain_env\<lparr>e_auth := ([], NoService)\<rparr>) (1, 10)
                       ''video.mp4'' ''video.mp4'' ''t1'' start_world)))
      = filter is_transfer (trace start_world)"
proof -
  have h: "snd (e_auth (plain_env\<lparr>e_auth := ([], NoService)\<rparr>)) = NoService"
    by simp
  from upload_without_credential [OF h] h show ?thesis
    by blast
qed

section \<open>Progress of the download never goes back\<close>

lemma download_pcts_simps [simp]:
  "download_pcts [] = []"
  "download_pcts (e # es) = shown_pct e @ download_pcts es"
  "download_pcts (es @ fs) = download_pcts es @ download_pcts fs"
  by (simp_all add: download_pcts_def)

lemma handler_shows_nothing: "quiet_effect e \<Longrightarrow> shown_pct e = []"
  by (cases e rule: handler_effect.cases) auto

lemma download_pcts_handler: "list_all quiet_effect es \<Longrightarrow> download_pcts es = []"
  by (induction es) (auto simp: handler_shows_nothing)

lemma edit_text_trace:
  "\<exists>es. trace (snd (edit_text m t r w)) = trace w @ EditText m t # es \<and> list_all quiet_effect es"
proof -
  obtain es where "trace (run_actions (fst r) (emit (EditText m t) w)) = trace (emit (EditText m t) w) @ es"
    "list_all quiet_effect es"
    using run_actions_trace by blast
  then have "trace (snd (edit_text m t r w)) =
      trace w @ EditText m t # (es @ (if snd r then [] else [EditFailed m t]))
    \<and> list_all quiet_effect (es @ (if snd r then [] else [EditFailed m t]))"
    by (simp add: edit_text_def Let_def)
  then show ?thesis by blast
qed

lemma edit_text_fst [simp]:
  "fst (edit_text m t r w) = (if snd r then Inr () else Inl TelegramError)"
  by (simp add: edit_text_def Let_def)

lemma download_loop_pcts:
  "\<exists>es. trace (snd (download_loop a eof rs buffer lastp w)) = trace w @ es
     \<and> sorted_wrt (<) (download_pcts es) \<and> (\<forall>p \<in> set (download_pcts es). lastp < p)"
proof (induction rs arbitrary: buffer lastp w)
  case Nil
  obtain es where "trace (run_actions eof w) = trace w @ es" "list_all quiet_effect es"
    using run_actions_trace by blast
  then show ?case by (auto simp: download_pcts_handler)
next
  case (Cons r rs)
  show ?case
  proof (cases "map_of (active_processes w) (task_id a) = None")
    case True
    then show ?thesis by simp
  next
    case False
    define w1 where "w1 = run_actions (rs_meanwhile r) w"
    define b1 where "b1 = buffer @ rs_text r"
    obtain es1 where es1: "trace w1 = trace w @ es1" "list_all quiet_effect es1"
      unfolding w1_def using run_actions_trace by blast
    have quiet: "\<exists>es. trace (snd (download_loop a eof rs b lastp w1)) = trace w @ es
       \<and> sorted_wrt (<) (download_pcts es) \<and> (\<forall>p \<in> set (download_pcts es). lastp < p)" for b
    proof -
      obtain es2 where "trace (snd (download_loop a eof rs b lastp w1)) = trace w1 @ es2"
        "sorted_wrt (<) (download_pcts es2)" "\<forall>p \<in> set (download_pcts es2). lastp < p"
        using Cons.IH by blast
      with es1 have "trace (snd (download_loop a eof rs b lastp w1)) = trace w @ (es1 @ es2)
        \<and> sorted_wrt (<) (download_pcts (es1 @ es2)) \<and> (\<forall>p \<in> set (download_pcts (es1 @ es2)). lastp < p)"
        by (simp add: download_pcts_handler)
      then show ?thesis by blast
    qed
    show ?thesis
    proof (cases "CHR 0x0D \<in> set b1")
      case noframe: False
      with False quiet [of b1] show ?thesis
        by (simp add: w1_def b1_def Let_def)
    next
      case frame: True
      show ?thesis
      proof (cases "parse_progress (last_frame b1)")
        case (Inl e)
        with False frame es1 show ?thesis
          by (auto simp: w1_def b1_def Let_def download_pcts_handler)
      next
        case (Inr snap)
        show ?thesis
        proof (cases snap)
          case None
          with False frame Inr quiet [of "last_frame b1"] show ?thesis
            by (simp add: w1_def b1_def Let_def)
        next
          case (Some q)
          obtain pct st vt et where q: "q = (pct, st, vt, et)" by (cases q)
          show ?thesis
          proof (cases "lastp < pct")
            case old: False
            with False frame Inr Some q quiet [of "last_frame b1"] show ?thesis
              by (simp add: w1_def b1_def Let_def)
          next
            case new: True
            define t where "t = Descargando (file_name a) (create_progress_bar pct) pct st vt et"
            define w2 where "w2 = snd (edit_text (initial_msg a) t (rs_edit r) w1)"
            define w3 where "w3 = (if snd (rs_edit r) then w2 else emit (Log Warning) w2)"
            obtain es2 where es2: "trace w2 = trace w1 @ EditText (initial_msg a) t # es2"
              "list_all quiet_effect es2"
              unfolding w2_def using edit_text_trace by blast
            obtain es3 where es3: "trace w3 = trace w2 @ es3" "list_all quiet_effect es3"
              unfolding w3_def by (cases "snd (rs_edit r)") auto
            obtain es4 where es4: "trace (snd (download_loop a eof rs (last_frame b1) pct w3)) = trace w3 @ es4"
              "sorted_wrt (<) (download_pcts es4)" "\<forall>p \<in> set (download_pcts es4). pct < p"
              using Cons.IH by blast
            have step: "download_loop a eof (r # rs) buffer lastp w
                = download_loop a eof rs (last_frame b1) pct w3"
              using frame Inr Some q new
              by (simp add: False w1_def [symmetric] b1_def [symmetric] Let_def t_def [symmetric] w3_def w2_def edit_text_def)
            let ?es = "es1 @ EditText (initial_msg a) t # es2 @ es3 @ es4"
            have "trace (snd (download_loop a eof (r # rs) buffer lastp w)) = trace w @ ?es"
              using step es1 es2 es3 es4 by simp
            moreover have "download_pcts ?es = pct # download_pcts es4"
              using es1 es2 es3 by (simp add: download_pcts_handler t_def)
            moreover have "sorted_wrt (<) (pct # download_pcts es4)"
              using es4 by simp
            moreover have "\<forall>p \<in> set (pct # download_pcts es4). lastp < p"
              using es4 new by auto
            ultimately show ?thesis by metis
          qed
        qed
      qed
    qed
  qed
qed

text \<open>
  Claim C7. The percentages of the progress updates the download phase renders, in the
  order in which it renders them, are strictly increasing: no update shows a percentage
  lower than or equal to one shown before, and no whole percentage is shown twice.
\<close>

theorem download_progress_increases:
  "sorted_wrt (<) (download_pcts (drop (length (trace w)) (trace (snd (download_phase E a w)))))
   \<and> distinct (download_pcts (drop (length (trace w)) (trace (snd (download_phase E a w)))))"
proof -
  have ext: "\<exists>es. trace (snd (download_phase E a w)) = trace w @ es \<and> sorted_wrt (<) (download_pcts es)"
  proof -
    define w1 where "w1 = snd (edit_text (initial_msg a) (Iniciando (file_name a)) (e_start E) w)"
    obtain es1 where es1: "trace w1 = trace w @ EditText (initial_msg a) (Iniciando (file_name a)) # es1"
      "list_all quiet_effect es1"
      unfolding w1_def using edit_text_trace by blast
    define w2 where "w2 = run_actions (fst (e_spawn E)) (emit (Exec (cmd_list a)) (emit (Log Info) w1))"
    obtain es2 where es2: "trace w2 = trace w1 @ Log Info # Exec (cmd_list a) # es2"
      "list_all quiet_effect es2"
    proof -
      obtain es where "trace w2 = trace (emit (Exec (cmd_list a)) (emit (Log Info) w1)) @ es"
        "list_all quiet_effect es"
        unfolding w2_def using run_actions_trace by blast
      then show ?thesis using that by simp
    qed
    show ?thesis
    proof (cases "snd (e_start E)")
      case False
      with es1 show ?thesis
        by (auto simp: download_phase_def edit_text_def w1_def download_pcts_handler)
    next
      case True
      show ?thesis
      proof (cases "snd (e_spawn E)")
        case (Inl e)
        with True es1 es2 show ?thesis
          by (auto simp: download_phase_def edit_text_def w1_def w2_def Let_def download_pcts_handler)
      next
        case (Inr process)
        define w3 where "w3 = w2\<lparr>alive := process # alive w2,
             active_processes := AList.update (task_id a) (process, output_filename a) (active_processes w2)\<rparr>"
        obtain r4 w4 where l: "download_loop a (e_eof E) (e_reads E) [] (- 1) w3 = (r4, w4)"
          by fastforce
        obtain es4 where es4: "trace w4 = trace w3 @ es4" "sorted_wrt (<) (download_pcts es4)"
          using download_loop_pcts [of a "e_eof E" "e_reads E" "[]" "- 1" w3] l by auto
        have t3: "trace w3 = trace w2" by (simp add: w3_def)
        obtain es5 where es5: "trace (run_actions (e_wait E) w4) = trace w4 @ es5" "list_all quiet_effect es5"
          using run_actions_trace by blast
        have res: "snd (download_phase E a w) =
          (case r4 of Inl e \<Rightarrow> w4 | Inr u \<Rightarrow>
             (run_actions (e_wait E) w4)\<lparr>alive := removeAll process (alive (run_actions (e_wait E) w4))\<rparr>)"
          using True Inr l
          by (simp add: download_phase_def edit_text_def w1_def w2_def w3_def Let_def split: sum.splits)
        show ?thesis
        proof (cases r4)
          case (Inl e)
          with res es1 es2 es4 t3 have "trace (snd (download_phase E a w)) =
             trace w @ (EditText (initial_msg a) (Iniciando (file_name a)) # es1 @ Log Info # Exec (cmd_list a) # es2 @ es4)"
            by simp
          moreover have "download_pcts (EditText (initial_msg a) (Iniciando (file_name a)) # es1 @ Log Info # Exec (cmd_list a) # es2 @ es4)
             = download_pcts es4"
            using es1 es2 by (simp add: download_pcts_handler)
          ultimately show ?thesis using es4 by metis
        next
          case (Inr u)
          with res es1 es2 es4 es5 t3 have "trace (snd (download_phase E a w)) =
             trace w @ (EditText (initial_msg a) (Iniciando (file_name a)) # es1 @ Log Info # Exec (cmd_list a) # es2 @ es4 @ es5)"
            by simp
          moreover have "download_pcts (EditText (initial_msg a) (Iniciando (file_name a)) # es1 @ Log Info # Exec (cmd_list a) # es2 @ es4 @ es5)
             = download_pcts es4"
            using es1 es2 es5 by (simp add: download_pcts_handler)
          ultimately show ?thesis using es4 by metis
        qed
      qed
    qed
  qed
  then obtain es where "trace (snd (download_phase E a w)) = trace w @ es" "sorted_wrt (<) (download_pcts es)"
    by blast
  then show ?thesis
    by (simp add: strict_sorted_iff)
qed

section \<open>The upload follows a successful download only\<close>

lemma upload_calls_simps [simp]:
  "upload_calls (emit e w) = upload_calls w @ (if is_upload_call e then [e] else [])"
  "upload_calls (w\<lparr>alive := x\<rparr>) = upload_calls w"
  "upload_calls (w\<lparr>active_processes := y\<rparr>) = upload_calls w"
  "upload_calls (w\<lparr>progress_messages := z\<rparr>) = upload_calls w"
  "upload_calls (remove_file p w) = upload_calls w"
  by (simp_all add: upload_calls_def)

lemma handler_no_upload: "quiet_effect e \<Longrightarrow> \<not> is_upload_call e"
  by (cases e rule: handler_effect.cases) auto

lemma upload_calls_run_actions [simp]: "upload_calls (run_actions acts w) = upload_calls w"
  unfolding upload_calls_def by (rule filter_run_actions) (rule handler_no_upload)

lemma upload_calls_edit_text [simp]: "upload_calls (snd (edit_text m t r w)) = upload_calls w"
  by (simp add: edit_text_def Let_def)

lemma upload_calls_download_loop [simp]:
  "upload_calls (snd (download_loop a eof rs buffer lastp w)) = upload_calls w"
proof (induction rs arbitrary: buffer lastp w)
  case Nil
  then show ?case by simp
next
  case (Cons r rs)
  have e: "upload_calls (run_actions acts (emit (EditText m t) w')) = upload_calls w'" for acts m t w'
    by simp
  show ?case
    by (simp add: Let_def Cons.IH edit_text_def split: sum.splits option.splits prod.splits)
qed

lemma upload_calls_download_phase [simp]:
  "upload_calls (snd (download_phase E a w)) = upload_calls w"
proof -
  have l: "upload_calls (snd (download_loop a eof rs b l w')) = upload_calls w'" for eof rs b l w'
    by simp
  show ?thesis
    unfolding download_phase_def Let_def edit_text_def
    by (auto split: sum.splits prod.splits simp: l [of _ _ _ _ _, unfolded snd_conv] dest!: arg_cong [where f = "\<lambda>x. upload_calls (snd x)"])
qed


lemma upload_calls_on_exception [simp]:
  "upload_calls (snd (on_exception E a e w)) = upload_calls w"
  by (simp add: on_exception_def Let_def)

lemma upload_calls_finalize [simp]: "upload_calls (finalize a w) = upload_calls w"
  by (simp add: finalize_def Let_def)

lemma upload_calls_task:
  "upload_calls (snd (download_and_upload_task E a w)) = upload_calls (snd (try_body E a w))"
proof -
  have "upload_calls (snd (case on_exception E a e w1 of
          (Inr u, w2) \<Rightarrow> (None, finalize a w2)
        | (Inl e2, w2) \<Rightarrow> (Some e2, finalize a w2))) = upload_calls w1" for e w1
    using upload_calls_on_exception [of E a e w1]
    by (cases "on_exception E a e w1") (auto split: sum.splits)
  then show ?thesis
    by (cases "try_body E a w") (auto simp: download_and_upload_task_def split: sum.splits)
qed

lemma finish_task_no_upload:
  assumes "map_of (active_processes w) (task_id a) = None \<or> e_returncode E \<noteq> 0
     \<or> files w (output_filename a) = None"
  shows "upload_calls (snd (finish_task E a w)) = upload_calls w"
  using assms by (auto simp: finish_task_def Let_def)

text \<open>A task that was removed from the dictionary of processes stays removed.\<close>

lemma cancel_keeps_removed:
  "map_of (active_processes w) t = None \<Longrightarrow>
   map_of (active_processes (snd (cancel_any_download x y g t' w))) t = None"
  by (auto simp: cancel_any_download_def Let_def map_of_delete_keeps split: option.splits)

lemma cancel_removes:
  "map_of (active_processes (snd (cancel_any_download True y g t w))) t = None"
  by (auto simp: cancel_any_download_def Let_def split: option.splits)

lemma run_action_keeps_removed:
  "map_of (active_processes w) t = None \<Longrightarrow> map_of (active_processes (run_action act w)) t = None"
  by (cases act) (simp_all add: cancel_keeps_removed)

lemma run_actions_keeps_removed:
  "map_of (active_processes w) t = None \<Longrightarrow> map_of (active_processes (run_actions acts w)) t = None"
  by (induction acts arbitrary: w) (simp_all add: run_actions_def run_action_keeps_removed)

lemma run_actions_removes:
  "Cancel t True y g \<in> set acts \<Longrightarrow> map_of (active_processes (run_actions acts w)) t = None"
proof (induction acts arbitrary: w)
  case Nil
  then show ?case by simp
next
  case (Cons act acts)
  have u: "run_actions (act # acts) w = run_actions acts (run_action act w)"
    by (simp add: run_actions_def)
  show ?case
  proof (cases "act = Cancel t True y g")
    case True
    then have "map_of (active_processes (run_action act w)) t = None"
      by (simp add: cancel_removes)
    then show ?thesis unfolding u by (rule run_actions_keeps_removed)
  next
    case False
    with Cons.prems have "Cancel t True y g \<in> set acts" by simp
    then show ?thesis unfolding u by (rule Cons.IH)
  qed
qed

lemma edit_text_keeps_removed:
  "map_of (active_processes w) t = None \<Longrightarrow>
   map_of (active_processes (snd (edit_text m x r w))) t = None"
  by (simp add: edit_text_def Let_def run_actions_keeps_removed)

lemma download_loop_cancelled:
  assumes "map_of (active_processes w) (task_id a) = None
     \<or> Cancel (task_id a) True y g \<in> set (concat (map rs_meanwhile rs) @ eof)"
  shows "isl (fst (download_loop a eof rs buffer lastp w))
     \<or> map_of (active_processes (snd (download_loop a eof rs buffer lastp w))) (task_id a) = None"
  using assms
proof (induction rs arbitrary: buffer lastp w)
  case Nil
  then show ?case by (auto simp: run_actions_removes)
next
  case (Cons r rs)
  show ?case
  proof (cases "map_of (active_processes w) (task_id a) = None")
    case True
    then show ?thesis by simp
  next
    case False
    define w1 where "w1 = run_actions (rs_meanwhile r) w"
    from False Cons.prems have "Cancel (task_id a) True y g \<in> set (rs_meanwhile r)
        \<or> Cancel (task_id a) True y g \<in> set (concat (map rs_meanwhile rs) @ eof)"
      by auto
    then have pre: "map_of (active_processes w1) (task_id a) = None
        \<or> Cancel (task_id a) True y g \<in> set (concat (map rs_meanwhile rs) @ eof)"
      unfolding w1_def using run_actions_removes by blast
    have rec: "isl (fst (download_loop a eof rs b l w1))
        \<or> map_of (active_processes (snd (download_loop a eof rs b l w1))) (task_id a) = None" for b l
      using pre by (rule Cons.IH)
    have rec2: "isl (fst (download_loop a eof rs b l (snd (edit_text m x q w1))))
        \<or> map_of (active_processes (snd (download_loop a eof rs b l (snd (edit_text m x q w1))))) (task_id a) = None"
       for b l m x q
    proof -
      from pre have "map_of (active_processes (snd (edit_text m x q w1))) (task_id a) = None
        \<or> Cancel (task_id a) True y g \<in> set (concat (map rs_meanwhile rs) @ eof)"
        by (auto simp: edit_text_keeps_removed)
      then show ?thesis by (rule Cons.IH)
    qed
    have rec3: "isl (fst (download_loop a eof rs b l (emit e' (snd (edit_text m x q w1)))))
        \<or> map_of (active_processes (snd (download_loop a eof rs b l (emit e' (snd (edit_text m x q w1)))))) (task_id a) = None"
       for b l m x q e'
    proof -
      from pre have "map_of (active_processes (emit e' (snd (edit_text m x q w1)))) (task_id a) = None
        \<or> Cancel (task_id a) True y g \<in> set (concat (map rs_meanwhile rs) @ eof)"
        by (auto simp: edit_text_keeps_removed)
      then show ?thesis by (rule Cons.IH)
    qed
    show ?thesis
      using rec rec2 rec3
      by (simp add: False w1_def [symmetric] Let_def case_prod_unfold split: sum.splits option.splits)
  qed
qed

lemma download_phase_cancelled:
  assumes "Cancel (task_id a) True y g \<in> set (download_awaits E)"
  shows "isl (fst (download_phase E a w))
     \<or> map_of (active_processes (snd (download_phase E a w))) (task_id a) = None"
proof (cases "snd (e_start E)")
  case False
  then show ?thesis by (simp add: download_phase_def edit_text_def)
next
  case True
  show ?thesis
  proof (cases "snd (e_spawn E)")
    case (Inl e)
    with True show ?thesis by (simp add: download_phase_def edit_text_def Let_def)
  next
    case (Inr process)
    define w3 where "w3 = (run_actions (fst (e_spawn E))
        (emit (Exec (cmd_list a)) (emit (Log Info)
          (run_actions (fst (e_start E)) (emit (EditText (initial_msg a) (Iniciando (file_name a))) w)))))
      \<lparr>alive := process # alive (run_actions (fst (e_spawn E))
        (emit (Exec (cmd_list a)) (emit (Log Info)
          (run_actions (fst (e_start E)) (emit (EditText (initial_msg a) (Iniciando (file_name a))) w))))),
       active_processes := AList.update (task_id a) (process, output_filename a)
         (active_processes (run_actions (fst (e_spawn E))
        (emit (Exec (cmd_list a)) (emit (Log Info)
          (run_actions (fst (e_start E)) (emit (EditText (initial_msg a) (Iniciando (file_name a))) w))))))\<rparr>"
    obtain r4 w4 where l: "download_loop a (e_eof E) (e_reads E) [] (- 1) w3 = (r4, w4)"
      by fastforce
    have res: "download_phase E a w =
          (case r4 of Inl e \<Rightarrow> (Inl e, w4) | Inr u \<Rightarrow>
             (Inr (), (run_actions (e_wait E) w4)\<lparr>alive := removeAll process (alive (run_actions (e_wait E) w4))\<rparr>))"
      using True Inr l
      by (simp add: download_phase_def edit_text_def w3_def Let_def split: sum.splits)
    show ?thesis
    proof (cases r4)
      case (Inl e)
      with res show ?thesis by simp
    next
      case r: (Inr u)
      have "map_of (active_processes (run_actions (e_wait E) w4)) (task_id a) = None"
      proof (cases "Cancel (task_id a) True y g \<in> set (e_wait E)")
        case True
        then show ?thesis by (rule run_actions_removes)
      next
        case False
        with assms have "Cancel (task_id a) True y g \<in> set (concat (map rs_meanwhile (e_reads E)) @ e_eof E)"
          by (auto simp: download_awaits_def)
        then have "map_of (active_processes w3) (task_id a) = None
          \<or> Cancel (task_id a) True y g \<in> set (concat (map rs_meanwhile (e_reads E)) @ e_eof E)"
          by (rule disjI2)
        then have "isl (fst (download_loop a (e_eof E) (e_reads E) [] (- 1) w3))
          \<or> map_of (active_processes (snd (download_loop a (e_eof E) (e_reads E) [] (- 1) w3))) (task_id a) = None"
          by (rule download_loop_cancelled)
        with l r have "map_of (active_processes w4) (task_id a) = None" by simp
        then show ?thesis by (rule run_actions_keeps_removed)
      qed
      with res r show ?thesis by simp
    qed
  qed
qed

text \<open>
  If a run of the task makes any call of the upload (authentication, creation of the
  request, a chunk), then the download phase ended without an exception, the task was
  still in the dictionary of processes after it, the exit code was zero and the output file
  existed; and no cancel for the task was handled while the task waited for a chunk of
  output, for the end of the output or for the end of the process, which are awaits that
  come after the task has put its process in the dictionary.
\<close>

lemma upload_only_after_download:
  assumes "upload_calls (snd (download_and_upload_task E a w)) \<noteq> upload_calls w"
  shows "fst (download_phase E a w) = Inr ()
    \<and> map_of (active_processes (snd (download_phase E a w))) (task_id a) \<noteq> None
    \<and> e_returncode E = 0
    \<and> files (snd (download_phase E a w)) (output_filename a) \<noteq> None
    \<and> (\<forall>y g. Cancel (task_id a) True y g \<notin> set (download_awaits E))"
proof -
  obtain r w1 where dl: "download_phase E a w = (r, w1)" by fastforce
  have c1: "upload_calls w1 = upload_calls w"
    using upload_calls_download_phase [of E a w] dl by simp
  have tb: "upload_calls (snd (try_body E a w)) \<noteq> upload_calls w"
    using assms by (simp add: upload_calls_task)
  have r: "r = Inr ()"
  proof (cases r)
    case (Inl e)
    with dl c1 tb show ?thesis by (simp add: try_body_def)
  next
    case (Inr u)
    then show ?thesis by simp
  qed
  with dl have t: "try_body E a w = finish_task E a w1" by (simp add: try_body_def)
  have cond: "\<not> (map_of (active_processes w1) (task_id a) = None \<or> e_returncode E \<noteq> 0
     \<or> files w1 (output_filename a) = None)"
  proof
    assume "map_of (active_processes w1) (task_id a) = None \<or> e_returncode E \<noteq> 0
     \<or> files w1 (output_filename a) = None"
    then have "upload_calls (snd (finish_task E a w1)) = upload_calls w1"
      by (rule finish_task_no_upload)
    with tb t c1 show False by simp
  qed
  have nocancel: "Cancel (task_id a) True y g \<notin> set (download_awaits E)" for y g
  proof
    assume "Cancel (task_id a) True y g \<in> set (download_awaits E)"
    then have "isl (fst (download_phase E a w))
       \<or> map_of (active_processes (snd (download_phase E a w))) (task_id a) = None"
      by (rule download_phase_cancelled)
    with dl r cond show False by simp
  qed
  from dl r cond nocancel show ?thesis by simp
qed

lemmas task_defs = download_and_upload_task_def try_body_def download_phase_def finish_task_def
  on_exception_def finalize_def upload_with_progress_def upload_body_def upload_cancelled_def
  edit_text_def run_actions_def emit_def remove_file_def output_filename_def Let_def

lemma uploading_run:
  "upload_calls (snd (download_and_upload_task uploading_env some_args start_world))
     = [Authenticate, CreateRequest ''video.mp4'' ''video.mp4'', NextChunk]"
  by (simp add: task_defs uploading_env_def plain_env_def some_args_def start_world_def upload_calls_def)

lemma early_cancel_run:
  "trace (snd (download_and_upload_task early_cancel_env some_args start_world)) =
     [EditText (1, 10) (Iniciando ''video''), Log Info, Exec (cmd_list some_args),
      QueryAnswer ''t1'', EditText (1, 10) YaFinalizada,
      EditText (1, 10) (DescargaCompleta ''video''),
      Authenticate, Log Info, CreateRequest ''video.mp4'' ''video.mp4'', Log Info,
      Remove ''video.mp4'', Log Info]"
  by (simp add: task_defs cancel_any_download_def early_cancel_env_def uploading_env_def
        plain_env_def some_args_def start_world_def)

lemma late_cancel_run:
  "trace (snd (download_and_upload_task late_cancel_env some_args start_world)) =
     [EditText (1, 10) (Iniciando ''video''), Log Info, Exec (cmd_list some_args),
      QueryAnswer ''t1'', Terminate 7, Log Info, Remove ''video.mp4'',
      EditText (1, 10) (Cancelada ''video.mp4''), Log Info]"
  by (simp add: task_defs cancel_any_download_def teardown_def terminate_def
        late_cancel_env_def uploading_env_def plain_env_def some_args_def start_world_def)

text \<open>
  Claim C3. The operator cancels task \<open>t1\<close> while its download process is being started
  (line 208), before the task has put the process in the dictionary (line 211). The handler
  finds no process, answers that the download has already ended or was cancelled, and ends
  no process. The download goes on to its end, and the upload is entered: the task
  authenticates with the storage service and creates the upload request, and only the
  check of line 150 keeps it from sending a chunk. The same cancel handled while the task
  waits for the output of the process ends the process, and no call of the upload is made.
\<close>

theorem cancel_before_registration_lost:
  "Cancel ''t1'' True True [] \<in> set (fst (e_spawn early_cancel_env))
   \<and> upload_calls (snd (download_and_upload_task early_cancel_env some_args start_world))
       = [Authenticate, CreateRequest ''video.mp4'' ''video.mp4'']
   \<and> upload_calls start_world = []
   \<and> EditText (1, 10) YaFinalizada
       \<in> set (trace (snd (download_and_upload_task early_cancel_env some_args start_world)))
   \<and> Terminate 7
       \<notin> set (trace (snd (download_and_upload_task early_cancel_env some_args start_world)))
   \<and> upload_calls (snd (download_and_upload_task late_cancel_env some_args start_world)) = []
   \<and> Terminate 7
       \<in> set (trace (snd (download_and_upload_task late_cancel_env some_args start_world)))"
  by (simp add: upload_calls_def early_cancel_run late_cancel_run)
    (simp add: early_cancel_env_def start_world_def)

section \<open>A progress update that fails is logged and nothing more\<close>

lemma same_outcome_refl [simp]: "same_outcome w w"
  by (simp add: same_outcome_def)

lemma same_result_pair [simp]: "same_result (r1, w1) (r2, w2) \<longleftrightarrow> r1 = r2 \<and> same_outcome w1 w2"
  by (simp add: same_result_def)

lemma so_emit: "same_outcome w1 w2 \<Longrightarrow> same_outcome (emit e w1) (emit e w2)"
  by (simp add: same_outcome_def)

lemma so_warn: "same_outcome w1 w2 \<Longrightarrow> same_outcome (emit (Log Warning) w1) w2"
  by (simp add: same_outcome_def delivery_noise_def)

lemma so_fail:
  "is_progress_text t \<Longrightarrow> same_outcome w1 w2 \<Longrightarrow> same_outcome (emit (EditFailed m t) w1) w2"
  by (simp add: same_outcome_def delivery_noise_def)

lemma so_fields:
  assumes "same_outcome w1 w2"
  shows "active_processes w1 = active_processes w2" "progress_messages w1 = progress_messages w2"
    "files w1 = files w2" "alive w1 = alive w2" "children w1 = children w2"
  using assms by (simp_all add: same_outcome_def)

lemma so_update:
  assumes "same_outcome w1 w2"
  shows "same_outcome (w1\<lparr>active_processes := x\<rparr>) (w2\<lparr>active_processes := x\<rparr>)"
    "same_outcome (w1\<lparr>progress_messages := y\<rparr>) (w2\<lparr>progress_messages := y\<rparr>)"
    "same_outcome (w1\<lparr>alive := z\<rparr>) (w2\<lparr>alive := z\<rparr>)"
    "same_outcome (w1\<lparr>alive := z, active_processes := x\<rparr>) (w2\<lparr>alive := z, active_processes := x\<rparr>)"
    "same_outcome (remove_file p w1) (remove_file p w2)"
    "same_outcome (w1\<lparr>active_processes := x, progress_messages := y\<rparr>)
       (w2\<lparr>active_processes := x, progress_messages := y\<rparr>)"
    "same_outcome (terminate q w1) (terminate q w2)"
  using assms by (simp_all add: same_outcome_def)

lemma so_signal_all:
  "same_outcome w1 w2 \<Longrightarrow> same_result (signal_all g ps w1) (signal_all g ps w2)"
proof (induction ps arbitrary: w1 w2)
  case Nil
  then show ?case by simp
next
  case (Cons p ps)
  have "same_outcome (terminate p w1) (terminate p w2)"
    using Cons.prems by (rule so_update)
  then have "same_result (signal_all g ps (terminate p w1)) (signal_all g ps (terminate p w2))"
    by (rule Cons.IH)
  with Cons.prems show ?case by simp
qed

lemma so_teardown:
  assumes "same_outcome w1 w2"
  shows "same_outcome (teardown g p w1) (teardown g p w2)"
proof (cases "p \<in> set (alive w2)")
  case False
  with assms show ?thesis
    by (simp add: teardown_def so_fields [OF assms] so_emit)
next
  case True
  let ?ps = "filter (\<lambda>c. c \<in> set (alive w2)) (children w2 p) @ [p]"
  let ?z = "filter (\<lambda>p. p \<notin> set g) (alive w2)"
  have "same_outcome (w1\<lparr>alive := ?z\<rparr>) (w2\<lparr>alive := ?z\<rparr>)"
    using assms by (rule so_update)
  then have r: "same_result (signal_all g ?ps (w1\<lparr>alive := ?z\<rparr>)) (signal_all g ?ps (w2\<lparr>alive := ?z\<rparr>))"
    by (rule so_signal_all)
  obtain b1 v1 where s1: "signal_all g ?ps (w1\<lparr>alive := ?z\<rparr>) = (b1, v1)" by fastforce
  obtain b2 v2 where s2: "signal_all g ?ps (w2\<lparr>alive := ?z\<rparr>) = (b2, v2)" by fastforce
  from r s1 s2 have b: "b1 = b2" and v: "same_outcome v1 v2" by simp_all
  have t1: "teardown g p w1 = emit (Log (if b1 then Info else Warning)) v1"
    using True s1 by (simp add: teardown_def Let_def so_fields [OF assms])
  have t2: "teardown g p w2 = emit (Log (if b2 then Info else Warning)) v2"
    using True s2 by (simp add: teardown_def Let_def)
  show ?thesis
    unfolding t1 t2 b using v by (rule so_emit)
qed

lemma so_cancel:
  assumes "same_outcome w1 w2"
  shows "same_result (cancel_any_download x y g t w1) (cancel_any_download x y g t w2)"
proof -
  note f = so_fields [OF assms]
  have a: "same_outcome (emit (QueryAnswer t) w1) (emit (QueryAnswer t) w2)"
    using assms by (rule so_emit)
  let ?v1 = "(emit (QueryAnswer t) w1)\<lparr>active_processes := AList.delete t (active_processes w2),
       progress_messages := AList.delete t (progress_messages w2)\<rparr>"
  let ?v2 = "(emit (QueryAnswer t) w2)\<lparr>active_processes := AList.delete t (active_processes w2),
       progress_messages := AList.delete t (progress_messages w2)\<rparr>"
  have v: "same_outcome ?v1 ?v2" using a by (rule so_update)
  show ?thesis
  proof (cases x)
    case False
    with a show ?thesis by (simp add: cancel_any_download_def)
  next
    case True
    show ?thesis
    proof (cases "map_of (active_processes w2) t")
      case None
      with v show ?thesis
        by (cases "map_of (progress_messages w2) t")
          (simp_all add: cancel_any_download_def Let_def f True so_emit)
    next
      case (Some pf)
      obtain p fn where pf: "pf = (p, fn)" by (cases pf)
      have td: "same_outcome (teardown g p ?v1) (teardown g p ?v2)"
        using v by (rule so_teardown)
      have rm: "same_outcome (remove_file fn (teardown g p ?v1)) (remove_file fn (teardown g p ?v2))"
        using td by (rule so_update)
      show ?thesis
      proof (cases "map_of (progress_messages w2) t")
        case None
        with Some pf td rm show ?thesis
          by (simp add: cancel_any_download_def Let_def f True)
      next
        case m: (Some m)
        with Some pf td rm show ?thesis
          by (simp add: cancel_any_download_def Let_def f True so_emit)
      qed
    qed
  qed
qed

lemma so_run_action: "same_outcome w1 w2 \<Longrightarrow> same_outcome (run_action act w1) (run_action act w2)"
proof (cases act)
  case (Cancel t x y g)
  assume "same_outcome w1 w2"
  then have "same_result (cancel_any_download x y g t w1) (cancel_any_download x y g t w2)"
    by (rule so_cancel)
  with Cancel show ?thesis by (simp add: same_result_def)
qed (auto simp: same_outcome_def)

lemma so_run_actions: "same_outcome w1 w2 \<Longrightarrow> same_outcome (run_actions acts w1) (run_actions acts w2)"
  by (induction acts arbitrary: w1 w2) (simp_all add: run_actions_def so_run_action)

lemma so_edit_text:
  "same_outcome w1 w2 \<Longrightarrow> same_result (edit_text m t r w1) (edit_text m t r w2)"
  by (simp add: edit_text_def Let_def so_run_actions so_emit)

lemma so_edit_text_snd:
  "is_progress_text t \<Longrightarrow> same_outcome w1 w2 \<Longrightarrow>
   same_outcome (snd (edit_text m t r w1)) (snd (edit_text m t (fst r, True) w2))"
  by (simp add: edit_text_def Let_def so_run_actions so_emit so_fail)

lemma progress_text_shape:
  "progress_text E name p msize speed pct = Inr x \<Longrightarrow> is_progress_text x"
  by (auto simp: progress_text_def split: sum.splits)

lemma so_download_loop:
  "same_outcome w1 w2 \<Longrightarrow>
   same_result (download_loop a eof rs buffer lastp w1)
     (download_loop a eof (map (\<lambda>r. r\<lparr>rs_edit := (fst (rs_edit r), True)\<rparr>) rs) buffer lastp w2)"
proof (induction rs arbitrary: buffer lastp w1 w2)
  case Nil
  then show ?case
    by (simp add: so_fields [OF Nil] so_emit so_run_actions)
next
  case (Cons r rs)
  note so = Cons.prems
  have m: "same_outcome (run_actions (rs_meanwhile r) w1) (run_actions (rs_meanwhile r) w2)"
    using so by (rule so_run_actions)
  have rec: "same_result (download_loop a eof rs b l (run_actions (rs_meanwhile r) w1))
     (download_loop a eof (map (\<lambda>r. r\<lparr>rs_edit := (fst (rs_edit r), True)\<rparr>) rs) b l
        (run_actions (rs_meanwhile r) w2))" for b l
    using m by (rule Cons.IH)
  have ed: "same_outcome (snd (edit_text m t (rs_edit r) (run_actions (rs_meanwhile r) w1)))
      (snd (edit_text m t (fst (rs_edit r), True) (run_actions (rs_meanwhile r) w2)))"
    if "is_progress_text t" for m t
    using that m by (rule so_edit_text_snd)
  have rec_ok: "is_progress_text t \<Longrightarrow> same_result
      (download_loop a eof rs b l (snd (edit_text m t (rs_edit r) (run_actions (rs_meanwhile r) w1))))
      (download_loop a eof (map (\<lambda>r. r\<lparr>rs_edit := (fst (rs_edit r), True)\<rparr>) rs) b l
         (snd (edit_text m t (fst (rs_edit r), True) (run_actions (rs_meanwhile r) w2))))" for b l m t
    using ed by (rule Cons.IH)
  have rec_warn: "is_progress_text t \<Longrightarrow> same_result
      (download_loop a eof rs b l (emit (Log Warning) (snd (edit_text m t (rs_edit r) (run_actions (rs_meanwhile r) w1)))))
      (download_loop a eof (map (\<lambda>r. r\<lparr>rs_edit := (fst (rs_edit r), True)\<rparr>) rs) b l
         (snd (edit_text m t (fst (rs_edit r), True) (run_actions (rs_meanwhile r) w2))))" for b l m t
    using so_warn [OF ed] by (rule Cons.IH)
  have fsts: "fst (edit_text m t (fst (rs_edit r), True) w) = Inr ()"
       "fst (edit_text m t (rs_edit r) w) = (if snd (rs_edit r) then Inr () else Inl TelegramError)" for m t w
    by (simp_all add: edit_text_def)
  show ?case
  proof (cases "map_of (active_processes w2) (task_id a) = None")
    case True
    with so show ?thesis by (simp add: so_fields [OF so] so_emit)
  next
    case False
    show ?thesis
    proof (cases "CHR 0x0D \<in> set (buffer @ rs_text r)")
      case nf: False
      with rec [of "buffer @ rs_text r" lastp] show ?thesis
        by (simp add: False so_fields [OF so] Let_def)
    next
      case fr: True
      show ?thesis
      proof (cases "parse_progress (last_frame (buffer @ rs_text r))")
        case (Inl e)
        with fr m show ?thesis by (simp add: False so_fields [OF so] Let_def)
      next
        case (Inr snap)
        show ?thesis
        proof (cases snap)
          case None
          with fr Inr rec [of "last_frame (buffer @ rs_text r)" lastp] show ?thesis
            by (simp add: False so_fields [OF so] Let_def)
        next
          case (Some q)
          obtain pct st vt et where q: "q = (pct, st, vt, et)" by (cases q)
          show ?thesis
          proof (cases "lastp < pct")
            case old: False
            with fr Inr Some q rec [of "last_frame (buffer @ rs_text r)" lastp] show ?thesis
              by (simp add: False so_fields [OF so] Let_def)
          next
            case new: True
            let ?t = "Descargando (file_name a) (create_progress_bar pct) pct st vt et"
            have l: "download_loop a eof (r # rs) buffer lastp w1 =
               (if snd (rs_edit r)
                then download_loop a eof rs (last_frame (buffer @ rs_text r)) pct
                       (snd (edit_text (initial_msg a) ?t (rs_edit r) (run_actions (rs_meanwhile r) w1)))
                else download_loop a eof rs (last_frame (buffer @ rs_text r)) pct
                       (emit (Log Warning) (snd (edit_text (initial_msg a) ?t (rs_edit r) (run_actions (rs_meanwhile r) w1)))))"
              using fr Inr Some q new
              by (simp add: False so_fields [OF so] Let_def edit_text_def)
            have r: "download_loop a eof (map (\<lambda>r. r\<lparr>rs_edit := (fst (rs_edit r), True)\<rparr>) (r # rs)) buffer lastp w2 =
               download_loop a eof (map (\<lambda>r. r\<lparr>rs_edit := (fst (rs_edit r), True)\<rparr>) rs)
                 (last_frame (buffer @ rs_text r)) pct
                 (snd (edit_text (initial_msg a) ?t (fst (rs_edit r), True) (run_actions (rs_meanwhile r) w2)))"
              using fr Inr Some q new
              by (simp add: False Let_def edit_text_def)
            show ?thesis
              unfolding l r using rec_ok [of ?t] rec_warn [of ?t] by simp
          qed
        qed
      qed
    qed
  qed
qed

lemma calm_fields [simp]:
  "size_text (calm E) = size_text E" "e_start (calm E) = e_start E" "e_spawn (calm E) = e_spawn E"
  "e_eof (calm E) = e_eof E" "e_wait (calm E) = e_wait E" "e_returncode (calm E) = e_returncode E"
  "e_done (calm E) = e_done E" "e_auth (calm E) = e_auth E" "e_auth_edit (calm E) = e_auth_edit E"
  "e_t0 (calm E) = e_t0 E" "e_last_chunk (calm E) = e_last_chunk E"
  "e_upload_error_edit (calm E) = e_upload_error_edit E" "e_completed (calm E) = e_completed E"
  "e_stderr (calm E) = e_stderr E" "e_error_edit (calm E) = e_error_edit E"
  "e_unexpected_edit (calm E) = e_unexpected_edit E"
  "e_reads (calm E) = map (\<lambda>r. r\<lparr>rs_edit := (fst (rs_edit r), True)\<rparr>) (e_reads E)"
  "e_chunks (calm E) = map (\<lambda>c. c\<lparr>cs_edit := (fst (cs_edit c), True)\<rparr>) (e_chunks E)"
  by (simp_all add: calm_def)

lemma calm_human_readable_size [simp]: "human_readable_size (calm E) = human_readable_size E"
  by (intro ext) (simp add: human_readable_size_def split: pyfloat.splits)

lemma calm_progress_text [simp]: "progress_text (calm E) = progress_text E"
  by (intro ext) (simp add: progress_text_def cong: sum.case_cong)

lemma so_cancelled: "same_outcome w1 w2 \<Longrightarrow> upload_cancelled t m w1 = upload_cancelled t m w2"
  by (simp add: upload_cancelled_def same_outcome_def)

lemma so_upload_loop:
  "same_outcome w1 w2 \<Longrightarrow>
   same_result (upload_loop E msg name t msize cs lb lt w1)
     (upload_loop (calm E) msg name t msize (map (\<lambda>c. c\<lparr>cs_edit := (fst (cs_edit c), True)\<rparr>) cs) lb lt w2)"
proof (induction cs arbitrary: lb lt w1 w2)
  case Nil
  then show ?case
    by (auto simp: so_cancelled [OF Nil] Let_def so_emit so_run_actions split: sum.splits)
next
  case (Cons c cs)
  note so = Cons.prems
  have m: "same_outcome (run_actions (cs_meanwhile c) (emit NextChunk w1))
      (run_actions (cs_meanwhile c) (emit NextChunk w2))"
    using so by (intro so_run_actions so_emit)
  have ed: "same_outcome (snd (edit_text msg x (cs_edit c) (run_actions (cs_meanwhile c) (emit NextChunk w1))))
      (snd (edit_text msg x (fst (cs_edit c), True) (run_actions (cs_meanwhile c) (emit NextChunk w2))))"
    if "is_progress_text x" for x
    using that m by (rule so_edit_text_snd)
  have rec_ok: "is_progress_text x \<Longrightarrow> same_result
      (upload_loop E msg name t msize cs b l (snd (edit_text msg x (cs_edit c) (run_actions (cs_meanwhile c) (emit NextChunk w1)))))
      (upload_loop (calm E) msg name t msize (map (\<lambda>c. c\<lparr>cs_edit := (fst (cs_edit c), True)\<rparr>) cs) b l
         (snd (edit_text msg x (fst (cs_edit c), True) (run_actions (cs_meanwhile c) (emit NextChunk w2)))))" for b l x
    using ed by (rule Cons.IH)
  have rec_warn: "is_progress_text x \<Longrightarrow> same_result
      (upload_loop E msg name t msize cs b l (emit (Log Warning) (snd (edit_text msg x (cs_edit c) (run_actions (cs_meanwhile c) (emit NextChunk w1))))))
      (upload_loop (calm E) msg name t msize (map (\<lambda>c. c\<lparr>cs_edit := (fst (cs_edit c), True)\<rparr>) cs) b l
         (snd (edit_text msg x (fst (cs_edit c), True) (run_actions (cs_meanwhile c) (emit NextChunk w2)))))" for b l x
    using so_warn [OF ed] by (rule Cons.IH)
  show ?case
  proof (cases "upload_cancelled t msg w2")
    case True
    with so show ?thesis by (simp add: so_cancelled [OF so] so_emit)
  next
    case False
    have l: "upload_loop E msg name t msize (c # cs) lb lt w1 =
      (case upload_speed (cs_progress c - lb) (float_sub (cs_now c) lt) of
         Inl e \<Rightarrow> (Inl e, run_actions (cs_meanwhile c) (emit NextChunk w1))
       | Inr speed \<Rightarrow>
          (case upload_percentage (cs_progress c) msize of
             Inl e \<Rightarrow> (Inl e, run_actions (cs_meanwhile c) (emit NextChunk w1))
           | Inr percentage \<Rightarrow>
              (case progress_text E name (cs_progress c) msize speed percentage of
                 Inl e \<Rightarrow> (Inl e, run_actions (cs_meanwhile c) (emit NextChunk w1))
               | Inr x \<Rightarrow>
                  if snd (cs_edit c)
                  then upload_loop E msg name t msize cs (cs_progress c) (cs_now c)
                         (snd (edit_text msg x (cs_edit c) (run_actions (cs_meanwhile c) (emit NextChunk w1))))
                  else upload_loop E msg name t msize cs (cs_progress c) (cs_now c)
                         (emit (Log Warning) (snd (edit_text msg x (cs_edit c) (run_actions (cs_meanwhile c) (emit NextChunk w1))))))))"
      by (simp add: False so_cancelled [OF so] Let_def edit_text_def split: sum.splits)
    have r: "upload_loop (calm E) msg name t msize (map (\<lambda>c. c\<lparr>cs_edit := (fst (cs_edit c), True)\<rparr>) (c # cs)) lb lt w2 =
      (case upload_speed (cs_progress c - lb) (float_sub (cs_now c) lt) of
         Inl e \<Rightarrow> (Inl e, run_actions (cs_meanwhile c) (emit NextChunk w2))
       | Inr speed \<Rightarrow>
          (case upload_percentage (cs_progress c) msize of
             Inl e \<Rightarrow> (Inl e, run_actions (cs_meanwhile c) (emit NextChunk w2))
           | Inr percentage \<Rightarrow>
              (case progress_text E name (cs_progress c) msize speed percentage of
                 Inl e \<Rightarrow> (Inl e, run_actions (cs_meanwhile c) (emit NextChunk w2))
               | Inr x \<Rightarrow>
                  upload_loop (calm E) msg name t msize (map (\<lambda>c. c\<lparr>cs_edit := (fst (cs_edit c), True)\<rparr>) cs)
                    (cs_progress c) (cs_now c)
                    (snd (edit_text msg x (fst (cs_edit c), True) (run_actions (cs_meanwhile c) (emit NextChunk w2)))))))"
      by (simp add: False Let_def edit_text_def split: sum.splits)
    show ?thesis
    proof (cases "upload_speed (cs_progress c - lb) (float_sub (cs_now c) lt)")
      case (Inl e)
      then show ?thesis unfolding l r using m by simp
    next
      case sp: (Inr speed)
      show ?thesis
      proof (cases "upload_percentage (cs_progress c) msize")
        case (Inl e)
        with sp show ?thesis unfolding l r using m by simp
      next
        case pc: (Inr percentage)
        show ?thesis
        proof (cases "progress_text E name (cs_progress c) msize speed percentage")
          case (Inl e)
          with sp pc show ?thesis unfolding l r using m by simp
        next
          case (Inr x)
          then have px: "is_progress_text x" by (rule progress_text_shape)
          show ?thesis
            unfolding l r using sp pc Inr rec_ok [OF px] rec_warn [OF px] by simp
        qed
      qed
    qed
  qed
qed

lemma so_snd: "same_result x y \<Longrightarrow> same_outcome (snd x) (snd y)"
  by (simp add: same_result_def)

lemma so_fst: "same_result x y \<Longrightarrow> fst x = fst y"
  by (simp add: same_result_def)

lemma so_upload_body:
  assumes "same_outcome w1 w2"
  shows "same_result (upload_body E msg fp name t w1) (upload_body (calm E) msg fp name t w2)"
proof -
  have a: "same_outcome (run_actions (fst (e_auth E)) (emit Authenticate w1))
     (run_actions (fst (e_auth E)) (emit Authenticate w2))"
    using assms by (intro so_run_actions so_emit)
  show ?thesis
  proof (cases "snd (e_auth E)")
    case Service
    show ?thesis
    proof (cases "files (run_actions (fst (e_auth E)) (emit Authenticate w2)) fp")
      case None
      with Service a show ?thesis
        by (simp add: upload_body_def Let_def so_fields [OF a])
    next
      case (Some n)
      have "same_outcome (emit (CreateRequest fp name) (emit (Log Info) (run_actions (fst (e_auth E)) (emit Authenticate w1))))
        (emit (CreateRequest fp name) (emit (Log Info) (run_actions (fst (e_auth E)) (emit Authenticate w2))))"
        using a by (intro so_emit)
      then have "same_result
        (upload_loop E msg name t (int n) (e_chunks E) 0 (e_t0 E)
          (emit (CreateRequest fp name) (emit (Log Info) (run_actions (fst (e_auth E)) (emit Authenticate w1)))))
        (upload_loop (calm E) msg name t (int n) (map (\<lambda>c. c\<lparr>cs_edit := (fst (cs_edit c), True)\<rparr>) (e_chunks E)) 0 (e_t0 E)
          (emit (CreateRequest fp name) (emit (Log Info) (run_actions (fst (e_auth E)) (emit Authenticate w2)))))"
        by (rule so_upload_loop)
      with Service Some show ?thesis
        by (simp add: upload_body_def Let_def so_fields [OF a])
    qed
  next
    case NoService
    have "same_result (edit_text msg NoAutenticado (e_auth_edit E) (run_actions (fst (e_auth E)) (emit Authenticate w1)))
       (edit_text msg NoAutenticado (e_auth_edit E) (run_actions (fst (e_auth E)) (emit Authenticate w2)))"
      using a by (rule so_edit_text)
    then have "same_outcome
       (snd (edit_text msg NoAutenticado (e_auth_edit E) (run_actions (fst (e_auth E)) (emit Authenticate w1))))
       (snd (edit_text msg NoAutenticado (e_auth_edit E) (run_actions (fst (e_auth E)) (emit Authenticate w2))))"
      by (rule so_snd)
    with NoService show ?thesis
      by (simp add: upload_body_def Let_def case_prod_unfold split: sum.splits)
  next
    case (AuthRaises e)
    with a show ?thesis by (simp add: upload_body_def Let_def)
  qed
qed

lemma so_upload_with_progress:
  assumes "same_outcome w1 w2"
  shows "same_result (upload_with_progress E msg fp name t w1) (upload_with_progress (calm E) msg fp name t w2)"
proof -
  obtain r1 v1 where b1: "upload_body E msg fp name t w1 = (r1, v1)" by fastforce
  obtain r2 v2 where b2: "upload_body (calm E) msg fp name t w2 = (r2, v2)" by fastforce
  from so_upload_body [OF assms, of E msg fp name t] b1 b2
  have r: "r1 = r2" and v: "same_outcome v1 v2" by simp_all
  show ?thesis
  proof (cases r1)
    case (Inr x)
    with b1 have c1: "upload_body E msg fp name t w1 = (Inr x, v1)" by simp
    from Inr b2 r have c2: "upload_body (calm E) msg fp name t w2 = (Inr x, v2)" by simp
    from v show ?thesis by (simp add: upload_with_progress_def c1 c2)
  next
    case (Inl e)
    have f: "same_outcome (emit (Log Failure) v1) (emit (Log Failure) v2)"
      using v by (rule so_emit)
    have "same_result (edit_text msg (ErrorSubida name e) (e_upload_error_edit E) (emit (Log Failure) v1))
       (edit_text msg (ErrorSubida name e) (e_upload_error_edit E) (emit (Log Failure) v2))"
      using f by (rule so_edit_text)
    then have "same_outcome (snd (edit_text msg (ErrorSubida name e) (e_upload_error_edit E) (emit (Log Failure) v1)))
       (snd (edit_text msg (ErrorSubida name e) (e_upload_error_edit E) (emit (Log Failure) v2)))"
      by (simp add: same_result_def)
    moreover from Inl b1 have c1: "upload_body E msg fp name t w1 = (Inl e, v1)" by simp
    moreover from Inl b2 r have c2: "upload_body (calm E) msg fp name t w2 = (Inl e, v2)" by simp
    ultimately show ?thesis
      using f by (simp add: upload_with_progress_def Let_def so_fields [OF v])
  qed
qed

lemma so_finalize: "same_outcome w1 w2 \<Longrightarrow> same_outcome (finalize a w1) (finalize a w2)"
  by (simp add: finalize_def Let_def so_fields so_update so_emit)

lemma so_on_exception:
  "same_outcome w1 w2 \<Longrightarrow> same_result (on_exception E a e w1) (on_exception (calm E) a e w2)"
  by (simp add: on_exception_def Let_def so_fields so_emit so_edit_text)

lemma so_download_phase:
  assumes "same_outcome w1 w2"
  shows "same_result (download_phase E a w1) (download_phase (calm E) a w2)"
proof -
  let ?s1 = "edit_text (initial_msg a) (Iniciando (file_name a)) (e_start E) w1"
  let ?s2 = "edit_text (initial_msg a) (Iniciando (file_name a)) (e_start E) w2"
  have s: "same_result ?s1 ?s2" using assms by (rule so_edit_text)
  let ?p1 = "run_actions (fst (e_spawn E)) (emit (Exec (cmd_list a)) (emit (Log Info) (snd ?s1)))"
  let ?p2 = "run_actions (fst (e_spawn E)) (emit (Exec (cmd_list a)) (emit (Log Info) (snd ?s2)))"
  have p: "same_outcome ?p1 ?p2"
    using so_snd [OF s] by (intro so_run_actions so_emit)
  have f: "fst ?s1 = fst ?s2" using s by (rule so_fst)
  show ?thesis
  proof (cases "fst ?s2")
    case (Inl e)
    with f so_snd [OF s] show ?thesis
      by (cases ?s1; cases ?s2) (simp add: download_phase_def)
  next
    case r: (Inr u)
    show ?thesis
    proof (cases "snd (e_spawn E)")
      case (Inl e)
      with r f p show ?thesis
        by (cases ?s1; cases ?s2) (simp add: download_phase_def Let_def)
    next
      case (Inr process)
      let ?q1 = "?p1\<lparr>alive := process # alive ?p2,
         active_processes := AList.update (task_id a) (process, output_filename a) (active_processes ?p2)\<rparr>"
      let ?q2 = "?p2\<lparr>alive := process # alive ?p2,
         active_processes := AList.update (task_id a) (process, output_filename a) (active_processes ?p2)\<rparr>"
      have q: "same_outcome ?q1 ?q2" using p by (rule so_update)
      let ?l1 = "download_loop a (e_eof E) (e_reads E) [] (- 1) ?q1"
      let ?l2 = "download_loop a (e_eof E) (map (\<lambda>r. r\<lparr>rs_edit := (fst (rs_edit r), True)\<rparr>) (e_reads E)) [] (- 1) ?q2"
      have l: "same_result ?l1 ?l2" using q by (rule so_download_loop)
      have wt: "same_outcome (run_actions (e_wait E) (snd ?l1)) (run_actions (e_wait E) (snd ?l2))"
        using so_snd [OF l] by (rule so_run_actions)
      have d1: "download_phase E a w1 = (case fst ?l1 of Inl e \<Rightarrow> (Inl e, snd ?l1)
         | Inr u \<Rightarrow> (Inr (), (run_actions (e_wait E) (snd ?l1))\<lparr>alive := removeAll process (alive (run_actions (e_wait E) (snd ?l1)))\<rparr>))"
        using r f Inr
        by (simp add: download_phase_def Let_def case_prod_unfold so_fields [OF p] split: sum.splits)
      have d2: "download_phase (calm E) a w2 = (case fst ?l2 of Inl e \<Rightarrow> (Inl e, snd ?l2)
         | Inr u \<Rightarrow> (Inr (), (run_actions (e_wait E) (snd ?l2))\<lparr>alive := removeAll process (alive (run_actions (e_wait E) (snd ?l2)))\<rparr>))"
        using r Inr
        by (simp add: download_phase_def Let_def case_prod_unfold split: sum.splits)
      show ?thesis
        unfolding d1 d2 using so_fst [OF l] so_snd [OF l] wt
        by (simp add: so_fields [OF wt] so_update split: sum.splits)
    qed
  qed
qed

lemma so_finish_task:
  assumes "same_outcome w1 w2"
  shows "same_result (finish_task E a w1) (finish_task (calm E) a w2)"
proof (cases "map_of (active_processes w2) (task_id a) = None")
  case True
  with assms show ?thesis by (simp add: finish_task_def so_fields [OF assms] so_emit)
next
  case False
  let ?v1 = "w1\<lparr>active_processes := AList.delete (task_id a) (active_processes w2)\<rparr>"
  let ?v2 = "w2\<lparr>active_processes := AList.delete (task_id a) (active_processes w2)\<rparr>"
  have v: "same_outcome ?v1 ?v2" using assms by (rule so_update)
  show ?thesis
  proof (cases "e_returncode E = 0 \<and> files w2 (output_filename a) \<noteq> None")
    case ok: True
    let ?d1 = "edit_text (initial_msg a) (DescargaCompleta (file_name a)) (e_done E) ?v1"
    let ?d2 = "edit_text (initial_msg a) (DescargaCompleta (file_name a)) (e_done E) ?v2"
    have d: "same_result ?d1 ?d2" using v by (rule so_edit_text)
    let ?u1 = "upload_with_progress E (initial_msg a) (output_filename a) (output_filename a) (task_id a) (snd ?d1)"
    let ?u2 = "upload_with_progress (calm E) (initial_msg a) (output_filename a) (output_filename a) (task_id a) (snd ?d2)"
    have u: "same_result ?u1 ?u2" using so_snd [OF d] by (rule so_upload_with_progress)
    have c: "same_result (edit_text (initial_msg a) x (e_completed E) (snd ?u1))
        (edit_text (initial_msg a) x (e_completed E) (snd ?u2))" for x
      using so_snd [OF u] by (rule so_edit_text)
    have f1: "finish_task E a w1 = (case fst ?d1 of Inl e \<Rightarrow> (Inl e, snd ?d1)
       | Inr z \<Rightarrow> (case fst ?u1 of None \<Rightarrow> (Inr (), snd ?u1)
            | Some uploaded_file \<Rightarrow> if uploaded_file = [] then (Inr (), snd ?u1)
                else edit_text (initial_msg a) (Completado (file_name a) (map_of uploaded_file ''webViewLink'')
                       (map_of uploaded_file ''id'')) (e_completed E) (snd ?u1)))"
      using ok
      by (cases ?d1; cases ?u1)
        (simp add: False finish_task_def Let_def so_fields [OF assms] split: sum.splits option.splits)
    have f2: "finish_task (calm E) a w2 = (case fst ?d2 of Inl e \<Rightarrow> (Inl e, snd ?d2)
       | Inr z \<Rightarrow> (case fst ?u2 of None \<Rightarrow> (Inr (), snd ?u2)
            | Some uploaded_file \<Rightarrow> if uploaded_file = [] then (Inr (), snd ?u2)
                else edit_text (initial_msg a) (Completado (file_name a) (map_of uploaded_file ''webViewLink'')
                       (map_of uploaded_file ''id'')) (e_completed E) (snd ?u2)))"
      using ok
      by (cases ?d2; cases ?u2)
        (simp add: False finish_task_def Let_def split: sum.splits option.splits)
    show ?thesis
      unfolding f1 f2 using so_fst [OF d] so_snd [OF d] so_fst [OF u] so_snd [OF u] c
      by (simp split: sum.splits option.splits)
  next
    case bad: False
    let ?e1 = "run_actions (fst (e_stderr E)) ?v1"
    let ?e2 = "run_actions (fst (e_stderr E)) ?v2"
    have e: "same_outcome ?e1 ?e2" using v by (rule so_run_actions)
    have x: "same_result (edit_text (initial_msg a) t (e_error_edit E) ?e1)
        (edit_text (initial_msg a) t (e_error_edit E) ?e2)" for t
      using e by (rule so_edit_text)
    show ?thesis
      using e x
      by (simp add: False bad finish_task_def Let_def so_fields [OF assms] so_fields [OF e]
            del: not_None_eq)
  qed
qed

lemma so_try_body:
  assumes "same_outcome w1 w2"
  shows "same_result (try_body E a w1) (try_body (calm E) a w2)"
proof -
  have d: "same_result (download_phase E a w1) (download_phase (calm E) a w2)"
    using assms by (rule so_download_phase)
  have f: "same_result (finish_task E a (snd (download_phase E a w1)))
      (finish_task (calm E) a (snd (download_phase (calm E) a w2)))"
    using so_snd [OF d] by (rule so_finish_task)
  show ?thesis
    using so_fst [OF d] so_snd [OF d] f
    by (cases "download_phase E a w1"; cases "download_phase (calm E) a w2")
      (simp add: try_body_def split: sum.splits)
qed

text \<open>What a run adds to the trace has every failed progress update logged.\<close>

lemma failures_logged_append:
  "failures_logged xs \<Longrightarrow> failures_logged ys \<Longrightarrow> failures_logged (xs @ ys)"
proof (induction xs rule: failures_logged.induct)
  case 1
  then show ?case by simp
next
  case (2 e)
  then show ?case by (cases ys) simp_all
next
  case (3 e f es)
  then show ?case by simp
qed

lemma unfailing_logged: "list_all (\<lambda>e. \<not> progress_failure e) es \<Longrightarrow> failures_logged es"
  by (induction es rule: failures_logged.induct) simp_all

lemma handler_unfailing: "handler_effect e \<Longrightarrow> \<not> progress_failure e"
  by (cases e) auto

lemma handlers_logged: "list_all handler_effect es \<Longrightarrow> failures_logged es"
  by (rule unfailing_logged) (auto simp: list_all_iff handler_unfailing)

lemma logged_sinceI:
  "trace w' = trace w @ es \<Longrightarrow> failures_logged es \<Longrightarrow> logged_since w w'"
  by (simp add: logged_since_def)

lemma logged_sinceD:
  assumes "logged_since w w'"
  shows "\<exists>es. trace w' = trace w @ es \<and> failures_logged es"
proof -
  have "trace w' = take (length (trace w)) (trace w') @ drop (length (trace w)) (trace w')"
    by simp
  with assms have "trace w' = trace w @ drop (length (trace w)) (trace w')
      \<and> failures_logged (drop (length (trace w)) (trace w'))"
    by (simp add: logged_since_def)
  then show ?thesis by blast
qed

lemma logged_since_refl [simp]: "logged_since w w"
  by (simp add: logged_since_def)

lemma logged_since_trans:
  assumes "logged_since w w'" "logged_since w' w''"
  shows "logged_since w w''"
proof -
  obtain es where es: "trace w' = trace w @ es" "failures_logged es"
    using logged_sinceD [OF assms(1)] by blast
  obtain fs where fs: "trace w'' = trace w' @ fs" "failures_logged fs"
    using logged_sinceD [OF assms(2)] by blast
  have "trace w'' = trace w @ (es @ fs)" using es fs by simp
  moreover have "failures_logged (es @ fs)"
    using es fs by (simp add: failures_logged_append)
  ultimately show ?thesis by (rule logged_sinceI)
qed

lemma logged_update [simp]:
  "logged_since w (w'\<lparr>active_processes := x\<rparr>) \<longleftrightarrow> logged_since w w'"
  "logged_since w (w'\<lparr>progress_messages := y\<rparr>) \<longleftrightarrow> logged_since w w'"
  "logged_since w (w'\<lparr>alive := z\<rparr>) \<longleftrightarrow> logged_since w w'"
  "logged_since w (w'\<lparr>alive := z, active_processes := x\<rparr>) \<longleftrightarrow> logged_since w w'"
  by (simp_all add: logged_since_def)

lemma logged_step:
  assumes "logged_since w w'" "\<not> progress_failure e"
  shows "logged_since w (emit e w')"
proof -
  have "logged_since w' (emit e w')"
    using assms(2) by (intro logged_sinceI [where es = "[e]"]) simp_all
  with assms(1) show ?thesis by (rule logged_since_trans)
qed

lemma logged_then_remove:
  assumes "logged_since w w'"
  shows "logged_since w (remove_file p w')"
proof -
  have "logged_since w' (remove_file p w')"
    by (intro logged_sinceI [where es = "[Remove p]"]) simp_all
  with assms show ?thesis by (rule logged_since_trans)
qed

lemma logged_then_actions:
  assumes "logged_since w w'"
  shows "logged_since w (run_actions acts w')"
proof -
  obtain es where "trace (run_actions acts w') = trace w' @ es" "list_all handler_effect es"
    using run_actions_handler by blast
  then have "logged_since w' (run_actions acts w')"
    by (intro logged_sinceI [where es = es] handlers_logged)
  with assms show ?thesis by (rule logged_since_trans)
qed

lemma logged_then_edit:
  assumes "logged_since w w'" "\<not> is_progress_text t"
  shows "logged_since w (snd (edit_text m t r w'))"
proof -
  have 1: "logged_since w (run_actions (fst r) (emit (EditText m t) w'))"
    using assms(1) by (intro logged_then_actions logged_step) simp_all
  then have 2: "logged_since w (emit (EditFailed m t) (run_actions (fst r) (emit (EditText m t) w')))"
    using assms(2) by (intro logged_step) simp_all
  from 1 2 show ?thesis by (simp add: edit_text_def Let_def)
qed

lemma logged_then_progress:
  assumes "logged_since w w'"
  shows "snd r \<Longrightarrow> logged_since w (snd (edit_text m t r w'))"
    and "\<not> snd r \<Longrightarrow> logged_since w (emit (Log Warning) (snd (edit_text m t r w')))"
proof -
  let ?v = "run_actions (fst r) (emit (EditText m t) w')"
  have 1: "logged_since w ?v"
    using assms by (intro logged_then_actions logged_step) simp_all
  show "logged_since w (snd (edit_text m t r w'))" if "snd r"
    using 1 that by (simp add: edit_text_def Let_def)
  show "logged_since w (emit (Log Warning) (snd (edit_text m t r w')))" if "\<not> snd r"
  proof -
    have "logged_since ?v (emit (Log Warning) (emit (EditFailed m t) ?v))"
      by (intro logged_sinceI [where es = "[EditFailed m t, Log Warning]"]) simp_all
    with 1 have "logged_since w (emit (Log Warning) (emit (EditFailed m t) ?v))"
      by (rule logged_since_trans)
    with that show ?thesis by (simp add: edit_text_def Let_def)
  qed
qed

lemma logged_download_loop:
  "logged_since w w' \<Longrightarrow> logged_since w (snd (download_loop a eof rs buffer lastp w'))"
proof (induction rs arbitrary: buffer lastp w')
  case Nil
  then show ?case by (simp add: logged_step logged_then_actions)
next
  case (Cons r rs)
  show ?case
  proof (cases "map_of (active_processes w') (task_id a) = None")
    case True
    with Cons.prems show ?thesis by (simp add: logged_step)
  next
    case False
    define w1 where "w1 = run_actions (rs_meanwhile r) w'"
    have m: "logged_since w w1"
      unfolding w1_def using Cons.prems by (rule logged_then_actions)
    have rec: "logged_since w (snd (download_loop a eof rs b l w1))" for b l
      using m by (rule Cons.IH)
    have rec_ok: "snd (rs_edit r) \<Longrightarrow>
        logged_since w (snd (download_loop a eof rs b l (snd (edit_text x t (rs_edit r) w1))))" for b l x t
      using logged_then_progress(1) [OF m] by (rule Cons.IH)
    have rec_warn: "\<not> snd (rs_edit r) \<Longrightarrow>
        logged_since w (snd (download_loop a eof rs b l
          (emit (Log Warning) (snd (edit_text x t (rs_edit r) w1)))))" for b l x t
      using logged_then_progress(2) [OF m] by (rule Cons.IH)
    show ?thesis
      using m rec rec_ok rec_warn
      by (simp add: False w1_def [symmetric] Let_def case_prod_unfold split: sum.splits option.splits)
  qed
qed

lemma logged_upload_loop:
  "logged_since w w' \<Longrightarrow> logged_since w (snd (upload_loop E msg name t msize cs lb lt w'))"
proof (induction cs arbitrary: lb lt w')
  case Nil
  have "logged_since w (run_actions (fst (e_last_chunk E)) (emit NextChunk w'))"
    using Nil by (intro logged_then_actions logged_step) simp_all
  with Nil show ?case by (simp add: Let_def logged_step split: sum.splits)
next
  case (Cons c cs)
  define w1 where "w1 = run_actions (cs_meanwhile c) (emit NextChunk w')"
  have m: "logged_since w w1"
    unfolding w1_def using Cons.prems by (intro logged_then_actions logged_step) simp_all
  have rec_ok: "snd (cs_edit c) \<Longrightarrow>
      logged_since w (snd (upload_loop E msg name t msize cs b l (snd (edit_text msg x (cs_edit c) w1))))" for b l x
    using logged_then_progress(1) [OF m] by (rule Cons.IH)
  have rec_warn: "\<not> snd (cs_edit c) \<Longrightarrow>
      logged_since w (snd (upload_loop E msg name t msize cs b l
        (emit (Log Warning) (snd (edit_text msg x (cs_edit c) w1)))))" for b l x
    using logged_then_progress(2) [OF m] by (rule Cons.IH)
  show ?case
    using Cons.prems m rec_ok rec_warn
    by (simp add: w1_def [symmetric] Let_def case_prod_unfold logged_step split: sum.splits)
qed

lemma logged_upload_body:
  assumes "logged_since w w'"
  shows "logged_since w (snd (upload_body E msg fp name t w'))"
proof -
  define w1 where "w1 = run_actions (fst (e_auth E)) (emit Authenticate w')"
  have a: "logged_since w w1"
    unfolding w1_def using assms by (intro logged_then_actions logged_step) simp_all
  show ?thesis
  proof (cases "snd (e_auth E)")
    case Service
    show ?thesis
    proof (cases "files w1 fp")
      case None
      with Service a show ?thesis by (simp add: upload_body_def w1_def [symmetric])
    next
      case (Some n)
      have "logged_since w (emit (CreateRequest fp name) (emit (Log Info) w1))"
        using a by (intro logged_step) simp_all
      then have "logged_since w (snd (upload_loop E msg name t (int n) (e_chunks E) 0 (e_t0 E)
          (emit (CreateRequest fp name) (emit (Log Info) w1))))"
        by (rule logged_upload_loop)
      with Service Some show ?thesis by (simp add: upload_body_def w1_def [symmetric])
    qed
  next
    case NoService
    have "logged_since w (snd (edit_text msg NoAutenticado (e_auth_edit E) w1))"
      using a by (rule logged_then_edit) simp
    with NoService show ?thesis
      by (simp add: upload_body_def w1_def [symmetric] case_prod_unfold split: sum.splits)
  next
    case (AuthRaises e)
    with a show ?thesis by (simp add: upload_body_def w1_def [symmetric])
  qed
qed

lemma logged_upload_with_progress:
  assumes "logged_since w w'"
  shows "logged_since w (snd (upload_with_progress E msg fp name t w'))"
proof -
  obtain r v where b: "upload_body E msg fp name t w' = (r, v)" by fastforce
  have v: "logged_since w v"
    using logged_upload_body [OF assms, of E msg fp name t] b by simp
  show ?thesis
  proof (cases r)
    case (Inr x)
    with b v show ?thesis by (simp add: upload_with_progress_def)
  next
    case (Inl e)
    have 1: "logged_since w (emit (Log Failure) v)"
      using v by (rule logged_step) simp
    have 2: "logged_since w (snd (edit_text msg (ErrorSubida name e) (e_upload_error_edit E)
        (emit (Log Failure) v)))"
      using 1 by (rule logged_then_edit) simp
    from Inl b 1 2 show ?thesis by (simp add: upload_with_progress_def Let_def)
  qed
qed

lemma logged_download_phase: "logged_since w (snd (download_phase E a w))"
proof -
  define w1 where "w1 = snd (edit_text (initial_msg a) (Iniciando (file_name a)) (e_start E) w)"
  have 1: "logged_since w w1"
    unfolding w1_def by (rule logged_then_edit) simp_all
  define w2 where "w2 = run_actions (fst (e_spawn E)) (emit (Exec (cmd_list a)) (emit (Log Info) w1))"
  have 2: "logged_since w w2"
    unfolding w2_def using 1 by (intro logged_then_actions logged_step) simp_all
  show ?thesis
  proof (cases "snd (e_start E)")
    case False
    with 1 show ?thesis by (simp add: download_phase_def case_prod_unfold w1_def)
  next
    case True
    show ?thesis
    proof (cases "snd (e_spawn E)")
      case (Inl e)
      with True 2 show ?thesis
        by (simp add: download_phase_def case_prod_unfold Let_def w1_def w2_def)
    next
      case (Inr process)
      define w3 where "w3 = w2\<lparr>alive := process # alive w2,
         active_processes := AList.update (task_id a) (process, output_filename a) (active_processes w2)\<rparr>"
      have 3: "logged_since w w3" unfolding w3_def using 2 by simp
      define l where "l = download_loop a (e_eof E) (e_reads E) [] (- 1) w3"
      have 4: "logged_since w (snd l)"
        unfolding l_def using 3 by (rule logged_download_loop)
      have 5: "logged_since w (run_actions (e_wait E) (snd l))"
        using 4 by (rule logged_then_actions)
      have res: "snd (download_phase E a w) =
         (case fst l of Inl e \<Rightarrow> snd l
          | Inr u \<Rightarrow> (run_actions (e_wait E) (snd l))\<lparr>alive :=
                       removeAll process (alive (run_actions (e_wait E) (snd l)))\<rparr>)"
        using True Inr
        by (simp add: download_phase_def case_prod_unfold Let_def w1_def w2_def w3_def l_def
              split: sum.splits)
      show ?thesis
        unfolding res using 4 5 by (simp split: sum.splits)
    qed
  qed
qed

lemma logged_finish_task:
  assumes "logged_since w w'"
  shows "logged_since w (snd (finish_task E a w'))"
proof (cases "map_of (active_processes w') (task_id a) = None")
  case True
  with assms show ?thesis by (simp add: finish_task_def logged_step)
next
  case False
  let ?v = "w'\<lparr>active_processes := AList.delete (task_id a) (active_processes w')\<rparr>"
  have v: "logged_since w ?v" using assms by simp
  show ?thesis
  proof (cases "e_returncode E = 0 \<and> files w' (output_filename a) \<noteq> None")
    case ok: True
    let ?d = "edit_text (initial_msg a) (DescargaCompleta (file_name a)) (e_done E) ?v"
    let ?u = "upload_with_progress E (initial_msg a) (output_filename a) (output_filename a)
        (task_id a) (snd ?d)"
    have d: "logged_since w (snd ?d)" using v by (rule logged_then_edit) simp
    have u: "logged_since w (snd ?u)" using d by (rule logged_upload_with_progress)
    have c: "logged_since w (snd (edit_text (initial_msg a) (Completado n x y) (e_completed E) (snd ?u)))"
      for n x y
      using u by (rule logged_then_edit) simp
    have f: "finish_task E a w' = (case fst ?d of Inl e \<Rightarrow> (Inl e, snd ?d)
       | Inr z \<Rightarrow> (case fst ?u of None \<Rightarrow> (Inr (), snd ?u)
            | Some uploaded_file \<Rightarrow> if uploaded_file = [] then (Inr (), snd ?u)
                else edit_text (initial_msg a) (Completado (file_name a) (map_of uploaded_file ''webViewLink'')
                       (map_of uploaded_file ''id'')) (e_completed E) (snd ?u)))"
      using ok
      by (cases ?d; cases ?u)
        (simp add: False finish_task_def Let_def split: sum.splits option.splits)
    show ?thesis
      unfolding f using d u c by (simp split: sum.splits option.splits)
  next
    case bad: False
    let ?e = "run_actions (fst (e_stderr E)) ?v"
    have e: "logged_since w ?e" using v by (rule logged_then_actions)
    have x: "logged_since w (snd (edit_text (initial_msg a) (ErrorDescarga n t) (e_error_edit E) ?e))"
      for n t
      using e by (rule logged_then_edit) simp
    show ?thesis
      using e x
      by (simp add: False bad finish_task_def Let_def del: not_None_eq)
  qed
qed

lemma logged_try_body: "logged_since w (snd (try_body E a w))"
proof -
  have d: "logged_since w (snd (download_phase E a w))"
    by (rule logged_download_phase)
  then have "logged_since w (snd (finish_task E a (snd (download_phase E a w))))"
    by (rule logged_finish_task)
  with d show ?thesis
    by (cases "download_phase E a w") (simp add: try_body_def split: sum.splits)
qed

lemma logged_on_exception:
  assumes "logged_since w w'"
  shows "logged_since w (snd (on_exception E a e w'))"
proof -
  have 1: "logged_since w (emit (Log Failure) w')"
    using assms by (rule logged_step) simp
  then have "logged_since w (snd (edit_text (initial_msg a) (ErrorInesperado (file_name a) e)
      (e_unexpected_edit E) (emit (Log Failure) w')))"
    by (rule logged_then_edit) simp
  with 1 show ?thesis by (simp add: on_exception_def Let_def)
qed

lemma logged_finalize:
  assumes "logged_since w w'"
  shows "logged_since w (finalize a w')"
proof -
  let ?v = "w'\<lparr>progress_messages := AList.delete (task_id a) (progress_messages w')\<rparr>"
  have v: "logged_since w ?v" using assms by simp
  then have "logged_since w (emit (Log Info) (remove_file (output_filename a) ?v))"
    by (intro logged_step logged_then_remove) simp_all
  with v show ?thesis by (simp add: finalize_def Let_def)
qed

lemma logged_task: "logged_since w (snd (download_and_upload_task E a w))"
proof -
  obtain r w1 where t: "try_body E a w = (r, w1)" by fastforce
  have 1: "logged_since w w1"
    using logged_try_body [of w E a] t by simp
  show ?thesis
  proof (cases r)
    case (Inr u)
    with t logged_finalize [OF 1] show ?thesis
      by (simp add: download_and_upload_task_def)
  next
    case (Inl e)
    obtain r2 w2 where x: "on_exception E a e w1 = (r2, w2)" by fastforce
    have "logged_since w w2"
      using logged_on_exception [OF 1, of E a e] x by simp
    then have "logged_since w (finalize a w2)" by (rule logged_finalize)
    with t Inl x show ?thesis
      by (simp add: download_and_upload_task_def split: sum.splits)
  qed
qed

text \<open>
  Claim C9. Take any run of the task and the run in the same environment in which every
  progress update, of the download and of the upload, is delivered. The two runs end with
  the same exception or none, the same dictionaries, files and processes, and the same
  calls to the outside, but for the marks of the progress updates that raised and the
  warnings logged. And in what the run adds to the trace, the effect right after every
  progress update that raised is a warning in the log: a failed progress update is logged
  and changes nothing else.
\<close>

theorem sink_failures_swallowed:
  "fst (download_and_upload_task E a w) = fst (download_and_upload_task (calm E) a w)
   \<and> same_outcome (snd (download_and_upload_task E a w)) (snd (download_and_upload_task (calm E) a w))
   \<and> failures_logged (drop (length (trace w)) (trace (snd (download_and_upload_task E a w))))"
proof -
  have t: "same_result (try_body E a w) (try_body (calm E) a w)"
    by (rule so_try_body) simp
  have x: "same_result (on_exception E a e (snd (try_body E a w)))
     (on_exception (calm E) a e (snd (try_body (calm E) a w)))" for e
    using so_snd [OF t] by (rule so_on_exception)
  have f: "same_outcome (finalize a (snd (try_body E a w))) (finalize a (snd (try_body (calm E) a w)))"
    using so_snd [OF t] by (rule so_finalize)
  have g: "same_outcome (finalize a (snd (on_exception E a e (snd (try_body E a w)))))
     (finalize a (snd (on_exception (calm E) a e (snd (try_body (calm E) a w)))))" for e
    using so_snd [OF x] by (rule so_finalize)
  have "same_result (download_and_upload_task E a w) (download_and_upload_task (calm E) a w)"
  proof (cases "fst (try_body E a w)")
    case (Inr u)
    with so_fst [OF t] f show ?thesis
      by (cases "try_body E a w"; cases "try_body (calm E) a w")
        (simp add: download_and_upload_task_def)
  next
    case (Inl e)
    with so_fst [OF t] so_fst [OF x [of e]] g [of e] show ?thesis
      by (cases "try_body E a w"; cases "try_body (calm E) a w";
          cases "on_exception E a e (snd (try_body E a w))";
          cases "on_exception (calm E) a e (snd (try_body (calm E) a w))")
        (auto simp: download_and_upload_task_def split: sum.splits)
  qed
  moreover have "logged_since w (snd (download_and_upload_task E a w))"
    by (rule logged_task)
  ultimately show ?thesis by (simp add: same_result_def logged_since_def)
qed

section \<open>Percentages: the upload and the parser\<close>

lemmas class_defs = is_space_def is_word_def is_ascii_digit_def digit_or_dot_def digit_or_colon_def code_def
lemmas float_defs = to_double_def round_pos_def binade_def scale2_def round_half_even_def overflows_def Let_def

lemma bit_length_values:
  "bit_length 1 = 1" "bit_length 10 = 4" "bit_length 29 = 5" "bit_length 100 = 7" "bit_length 420 = 9"
  "bit_length 36761867406618650110129602560000 = 105"
  "bit_length 1267650600228229401496703205376 = 101"
  by (simp_all add: bit_length.simps)

lemma hundred: "int_to_float 100 = Inr (Fin 7036874417766400 (- 46))"
  by (simp add: int_to_float_def float_defs bit_length_values)

lemma quotient_29: "int_truediv 29 100 = Inr (Fin 5224175567749775 (- 54))"
  by (simp add: int_truediv_def float_defs bit_length_values)

lemma product_29:
  "float_mul (Fin 5224175567749775 (- 54)) (7036874417766400, - 46) = Fin 8162774324609023 (- 48)"
  by (simp add: float_mul_def float_defs bit_length_values)

text \<open>
  Claim C5. With 29 bytes of 100 uploaded the percentage the upload computes is 28:
  the quotient \<open>29 / 100\<close> is rounded to a double below \<open>0.29\<close>, its product with 100 is
  rounded to a double below 29, and \<^verbatim>\<open>int\<close> truncates it. The percentage of the
  specification, the floor of \<open>29 * 100 / 100\<close>, is 29.
\<close>

theorem upload_percentage_rounds_down:
  "upload_percentage 29 100 = Inr 28 \<and> (29 * 100) div 100 = (29 :: int)"
  by (simp add: upload_percentage_def hundred quotient_29 product_29) (simp add: py_int_def)

lemma search_sample:
  "re_search progress_pattern ''[download]  42.0% of ~100.0MiB at 5.0MiB/s ETA 00:10''
   = Some ('''', [''42.0'', ''100.0MiB'', ''5.0MiB/s'', ''00:10''])"
  by (simp add: progress_pattern_def match_here_def class_defs)

lemma float_sample: "py_float ''42.0'' = Inr (Fin 5910974510923776 (- 47))"
proof -
  have d: "digits_value ''420'' = 420" by (simp add: digits_value_def code_def)
  have t: "to_double 420 10 = Fin 5910974510923776 (- 47)"
    by (simp add: float_defs bit_length_values)
  show ?thesis by (simp add: py_float_def class_defs d t)
qed

lemma int_sample: "py_int (Fin 5910974510923776 (- 47)) = Inr 42"
  by (simp add: py_int_def)

lemma parse_progress_no_match:
  "re_search progress_pattern line = None \<Longrightarrow> parse_progress line = Inr None"
  by (simp add: parse_progress_def)

lemma search_other: "re_search progress_pattern ''[download] Destination: a.mp4'' = None"
  by (simp add: progress_pattern_def match_here_def class_defs)

lemma parse_sample:
  "parse_progress ''[download]  42.0% of ~100.0MiB at 5.0MiB/s ETA 00:10''
     = Inr (Some (42, ''100.0MiB'', ''5.0MiB/s'', ''00:10''))"
  by (simp only: parse_progress_def search_sample float_sample int_sample
        option.case prod.case list.case sum.case)

lemma search_bad:
  "re_search progress_pattern ''[download] 1.2.3% of 1MiB at 1MiB/s ETA 0''
   = Some ('''', [''1.2.3'', ''1MiB'', ''1MiB/s'', ''0''])"
  by (simp add: progress_pattern_def match_here_def class_defs)

lemma float_bad: "py_float ''1.2.3'' = Inl ValueError"
  by (simp add: py_float_def class_defs)

lemma parse_bad: "parse_progress ''[download] 1.2.3% of 1MiB at 1MiB/s ETA 0'' = Inl ValueError"
  by (simp only: parse_progress_def search_bad float_bad option.case prod.case list.case sum.case)

lemma search_dots:
  "re_search progress_pattern ''[download] ..% of 1MiB at 1MiB/s ETA 0''
   = Some ('''', [''..'', ''1MiB'', ''1MiB/s'', ''0''])"
  by (simp add: progress_pattern_def match_here_def class_defs)

lemma float_dots: "py_float ''..'' = Inl ValueError"
  by (simp add: py_float_def class_defs)

lemma parse_dots: "parse_progress ''[download] ..% of 1MiB at 1MiB/s ETA 0'' = Inl ValueError"
  by (simp only: parse_progress_def search_dots float_dots option.case prod.case list.case sum.case)

lemma search_near:
  "re_search progress_pattern ''[download]42.0% of 1MiB at 1MiB/s ETA 0'' = None"
  "re_search progress_pattern ''[download] 42.0% of 1MiB at 1MiB/s ETA '' = None"
  "re_search progress_pattern ''[download] % of 1MiB at 1MiB/s ETA 0'' = None"
  by (simp_all add: progress_pattern_def match_here_def class_defs)

text \<open>
  Claim C6. In the line \<^verbatim>\<open>[download] 1.2.3% of 1MiB at 1MiB/s ETA 0\<close> the progress
  pattern has a match, with \<^verbatim>\<open>1.2.3\<close> for the percentage, which is made of digits and
  dots but is not a number: \<^verbatim>\<open>float\<close> raises \<^verbatim>\<open>ValueError\<close>, and so does the parsing of
  the line, where a parser that returns no snapshot would give \<open>Inr None\<close>; the same for
  the percentage \<^verbatim>\<open>..\<close>. The rest of the claim holds: the line
  \<^verbatim>\<open>[download]  42.0% of ~100.0MiB at 5.0MiB/s ETA 00:10\<close> gives the percentage 42, and lines
  in which the pattern has no match give no snapshot (here a line of another kind, and
  lines that miss the space before the percentage, the time after \<^verbatim>\<open>ETA\<close>, or the
  percentage).
\<close>

theorem parse_progress_raises:
  "re_search progress_pattern ''[download] 1.2.3% of 1MiB at 1MiB/s ETA 0''
     = Some ('''', [''1.2.3'', ''1MiB'', ''1MiB/s'', ''0''])
   \<and> py_float ''1.2.3'' = Inl ValueError
   \<and> parse_progress ''[download] 1.2.3% of 1MiB at 1MiB/s ETA 0'' = Inl ValueError
   \<and> parse_progress ''[download] ..% of 1MiB at 1MiB/s ETA 0'' = Inl ValueError
   \<and> parse_progress ''[download]  42.0% of ~100.0MiB at 5.0MiB/s ETA 00:10''
       = Inr (Some (42, ''100.0MiB'', ''5.0MiB/s'', ''00:10''))
   \<and> parse_progress ''[download] Destination: a.mp4'' = Inr None
   \<and> parse_progress ''[download]42.0% of 1MiB at 1MiB/s ETA 0'' = Inr None
   \<and> parse_progress ''[download] 42.0% of 1MiB at 1MiB/s ETA '' = Inr None
   \<and> parse_progress ''[download] % of 1MiB at 1MiB/s ETA 0'' = Inr None"
  by (simp only: search_bad float_bad parse_bad parse_dots parse_sample
        parse_progress_no_match [OF search_other] parse_progress_no_match [OF search_near(1)]
        parse_progress_no_match [OF search_near(2)] parse_progress_no_match [OF search_near(3)])

lemma frame_bad:
  "last_frame (CHR 0x0D # ''[download] 1.2.3% of 1MiB at 1MiB/s ETA 0'')
    = ''[download] 1.2.3% of 1MiB at 1MiB/s ETA 0''"
  by (simp add: last_frame_def)

text \<open>
  Claim C1. A run in which the conversion of the percentage raises \<^verbatim>\<open>ValueError\<close> while
  the output of the process is read: the task ends with no exception leaving it, its
  progress message is removed, but its entry in the dictionary of processes is still there
  and the process is still alive.
\<close>

theorem exception_leaves_task_registered:
  "fst (download_and_upload_task bad_frame_env some_args start_world) = None
   \<and> map_of (active_processes (snd (download_and_upload_task bad_frame_env some_args start_world))) ''t1''
       = Some (7, ''video.mp4'')
   \<and> alive (snd (download_and_upload_task bad_frame_env some_args start_world)) = [7]
   \<and> map_of (progress_messages (snd (download_and_upload_task bad_frame_env some_args start_world))) ''t1''
       = None"
  by (simp add: task_defs bad_frame_env_def plain_env_def some_args_def start_world_def
        frame_bad parse_bad)

text \<open>
  A run in which the one progress update of the download is not delivered: the failure is
  logged and the task goes on. No file was written, so the task ends with the report of a
  failed download.
\<close>

lemma frame_sample:
  "last_frame (CHR 0x0D # ''[download]  42.0% of ~100.0MiB at 5.0MiB/s ETA 00:10'')
    = ''[download]  42.0% of ~100.0MiB at 5.0MiB/s ETA 00:10''"
  by (simp add: last_frame_def)

lemma flaky_run:
  "download_and_upload_task flaky_env some_args start_world =
     (None, start_world\<lparr>active_processes := [], progress_messages := [],
        trace :=
          [EditText (1, 10) (Iniciando ''video''), Log Info, Exec (cmd_list some_args),
           EditText (1, 10) (Descargando ''video'' (create_progress_bar 42) 42
              ''100.0MiB'' ''5.0MiB/s'' ''00:10''),
           EditFailed (1, 10) (Descargando ''video'' (create_progress_bar 42) 42
              ''100.0MiB'' ''5.0MiB/s'' ''00:10''),
           Log Warning,
           EditText (1, 10) (ErrorDescarga ''video'' [])]\<rparr>)"
  by (simp add: task_defs flaky_env_def plain_env_def some_args_def start_world_def
        frame_sample parse_sample strip_def)

section \<open>What is reported when the download fails\<close>

lemma strip_long: "strip long_stderr = long_stderr"
proof -
  have a: "\<not> is_space (CHR ''a'')" and b: "\<not> is_space (CHR ''b'')"
    by (simp_all add: is_space_def code_def)
  have r: "replicate 1000 c = c # replicate 999 c" for c :: char
    using replicate_Suc [of 999 c] by simp
  have 1: "dropWhile is_space long_stderr = long_stderr"
    unfolding long_stderr_def by (simp add: r a)
  have 2: "rev long_stderr = replicate 1000 (CHR ''b'') @ replicate 1000 (CHR ''a'')"
    by (simp add: long_stderr_def)
  have 3: "dropWhile is_space (rev long_stderr) = rev long_stderr"
    unfolding 2 by (simp add: r b)
  show ?thesis by (simp add: strip_def 1 3)
qed

lemma take_long: "take 1000 long_stderr = replicate 1000 (CHR ''a'')"
  by (simp add: long_stderr_def)

lemma tail_long: "stderr_tail 1000 long_stderr = replicate 1000 (CHR ''b'')"
  by (simp add: stderr_tail_def long_stderr_def)

text \<open>
  Claim C2, as stated, fails: for a download that ends with exit code 1 and a standard
  error of a thousand \<open>a\<close> followed by a thousand \<open>b\<close>, the text reported is the thousand
  \<open>a\<close>, the head of the error output, while its last thousand characters are the \<open>b\<close>.
\<close>

theorem stderr_head_not_tail:
  "trace (snd (download_and_upload_task failing_env some_args start_world)) =
     [EditText (1, 10) (Iniciando ''video''), Log Info, Exec (cmd_list some_args),
      EditText (1, 10) (ErrorDescarga ''video'' (replicate 1000 (CHR ''a'')))]
   \<and> stderr_tail 1000 (snd (e_stderr failing_env)) = replicate 1000 (CHR ''b'')
   \<and> replicate 1000 (CHR ''a'') \<noteq> replicate 1000 (CHR ''b'')"
proof -
  have "trace (snd (download_and_upload_task failing_env some_args start_world)) =
     [EditText (1, 10) (Iniciando ''video''), Log Info, Exec (cmd_list some_args),
      EditText (1, 10) (ErrorDescarga ''video'' (take 1000 (strip long_stderr)))]"
    by (simp add: task_defs failing_env_def plain_env_def some_args_def start_world_def)
  then show ?thesis
    by (simp add: strip_long take_long tail_long failing_env_def)
qed

lemma logged_grows: "logged_since w w' \<Longrightarrow> set (trace w) \<subseteq> set (trace w')"
  using logged_sinceD [of w w'] by auto

lemma edit_text_shown: "EditText m t \<in> set (trace (snd (edit_text m t r w)))"
proof -
  obtain es where "trace (snd (edit_text m t r w)) = trace w @ EditText m t # es"
    using edit_text_trace by blast
  then show ?thesis by simp
qed

lemma trace_grows_task:
  "set (trace (snd (try_body E a w))) \<subseteq> set (trace (snd (download_and_upload_task E a w)))"
proof (cases "try_body E a w")
  case (Pair r w1)
  show ?thesis
  proof (cases r)
    case (Inr u)
    have "logged_since w1 (finalize a w1)"
      by (rule logged_finalize) simp
    then have "set (trace w1) \<subseteq> set (trace (finalize a w1))"
      by (rule logged_grows)
    with Pair Inr show ?thesis
      by (simp add: download_and_upload_task_def)
  next
    case (Inl e)
    obtain r2 w2 where x: "on_exception E a e w1 = (r2, w2)" by fastforce
    have "logged_since w1 w2"
      using logged_on_exception [OF logged_since_refl, of w1 E a e] x by simp
    then have "logged_since w1 (finalize a w2)" by (rule logged_finalize)
    then have "set (trace w1) \<subseteq> set (trace (finalize a w2))" by (rule logged_grows)
    then show ?thesis
      using Pair Inl x by (auto simp: download_and_upload_task_def split: sum.splits)
  qed
qed

lemma upload_authenticates:
  "Authenticate \<in> set (trace (snd (upload_with_progress E msg fp name t w)))"
proof -
  let ?w1 = "run_actions (fst (e_auth E)) (emit Authenticate w)"
  have a: "logged_since (emit Authenticate w) ?w1"
    by (intro logged_then_actions) simp
  have b: "logged_since (emit Authenticate w) (snd (upload_body E msg fp name t w))"
  proof (cases "snd (e_auth E)")
    case Service
    show ?thesis
    proof (cases "files ?w1 fp")
      case None
      with Service a show ?thesis by (simp add: upload_body_def)
    next
      case (Some n)
      have "logged_since (emit Authenticate w) (emit (CreateRequest fp name) (emit (Log Info) ?w1))"
        using a by (intro logged_step) simp_all
      then have "logged_since (emit Authenticate w)
          (snd (upload_loop E msg name t (int n) (e_chunks E) 0 (e_t0 E)
             (emit (CreateRequest fp name) (emit (Log Info) ?w1))))"
        by (rule logged_upload_loop)
      with Service Some show ?thesis by (simp add: upload_body_def)
    qed
  next
    case NoService
    have "logged_since (emit Authenticate w) (snd (edit_text msg NoAutenticado (e_auth_edit E) ?w1))"
      using a by (rule logged_then_edit) simp
    with NoService show ?thesis
      by (simp add: upload_body_def case_prod_unfold split: sum.splits)
  next
    case (AuthRaises e)
    with a show ?thesis by (simp add: upload_body_def)
  qed
  obtain r v where u: "upload_body E msg fp name t w = (r, v)" by fastforce
  with b have v: "logged_since (emit Authenticate w) v" by simp
  have "logged_since (emit Authenticate w) (snd (upload_with_progress E msg fp name t w))"
  proof (cases r)
    case (Inr x)
    with u v show ?thesis by (simp add: upload_with_progress_def)
  next
    case (Inl e)
    have 1: "logged_since (emit Authenticate w) (emit (Log Failure) v)"
      using v by (rule logged_step) simp
    have 2: "logged_since (emit Authenticate w)
        (snd (edit_text msg (ErrorSubida name e) (e_upload_error_edit E) (emit (Log Failure) v)))"
      using 1 by (rule logged_then_edit) simp
    from Inl u 1 2 show ?thesis by (simp add: upload_with_progress_def Let_def)
  qed
  then have "set (trace (emit Authenticate w))
      \<subseteq> set (trace (snd (upload_with_progress E msg fp name t w)))"
    by (rule logged_grows)
  then show ?thesis by simp
qed

text \<open>
  Claim C2, amended. Take a download that ended by itself: the download phase returned and
  the task is still in the dictionary of processes. If the exit code is zero and the output
  file exists, the operator is shown that the download is complete and, when that message
  was delivered, the upload runs on the output file, with every call it makes, the
  authentication first. Otherwise no call of the upload is made,
  and if the task still has its progress message when the error output has been read, the
  operator is shown the failure with the first 1000 characters of the error output,
  stripped of the white space around it; if it has not, nothing is shown and the task ends.
\<close>

theorem download_result_reported:
  assumes dl: "download_phase E a w = (Inr (), w2)"
    and reg: "map_of (active_processes w2) (task_id a) \<noteq> None"
  shows "if e_returncode E = 0 \<and> files w2 (output_filename a) \<noteq> None
     then EditText (initial_msg a) (DescargaCompleta (file_name a))
            \<in> set (trace (snd (download_and_upload_task E a w)))
          \<and> (if snd (e_done E)
              then Authenticate \<in> set (trace (snd (download_and_upload_task E a w)))
                \<and> set (trace (snd (upload_with_progress E (initial_msg a)
                                (output_filename a) (output_filename a) (task_id a)
                                (snd (edit_text (initial_msg a) (DescargaCompleta (file_name a))
                                        (e_done E)
                                        (w2\<lparr>active_processes :=
                                              AList.delete (task_id a) (active_processes w2)\<rparr>))))))
                    \<subseteq> set (trace (snd (download_and_upload_task E a w)))
              else upload_calls (snd (download_and_upload_task E a w)) = upload_calls w)
     else upload_calls (snd (download_and_upload_task E a w)) = upload_calls w
          \<and> (if map_of (progress_messages (after_stderr E a w2)) (task_id a) \<noteq> None
              then EditText (initial_msg a)
                     (ErrorDescarga (file_name a) (take 1000 (strip (snd (e_stderr E)))))
                   \<in> set (trace (snd (download_and_upload_task E a w)))
              else download_and_upload_task E a w = (None, finalize a (after_stderr E a w2)))"
proof -
  have tb: "try_body E a w = finish_task E a w2"
    using dl by (simp add: try_body_def)
  have grow: "set (trace (snd (finish_task E a w2))) \<subseteq> set (trace (snd (download_and_upload_task E a w)))"
    using trace_grows_task [of E a w] tb by simp
  have c0: "upload_calls w2 = upload_calls w"
    using upload_calls_download_phase [of E a w] dl by simp
  show ?thesis
  proof (cases "e_returncode E = 0 \<and> files w2 (output_filename a) \<noteq> None")
    case bad: False
    then have "upload_calls (snd (finish_task E a w2)) = upload_calls w2"
      by (intro finish_task_no_upload) auto
    then have 1: "upload_calls (snd (download_and_upload_task E a w)) = upload_calls w"
      using c0 tb by (simp add: upload_calls_task)
    show ?thesis
    proof (cases "map_of (progress_messages (after_stderr E a w2)) (task_id a) \<noteq> None")
      case shown: True
      have "finish_task E a w2 = edit_text (initial_msg a)
          (ErrorDescarga (file_name a) (take 1000 (strip (snd (e_stderr E))))) (e_error_edit E)
          (after_stderr E a w2)"
        using shown
        by (simp add: finish_task_def Let_def reg bad after_stderr_def del: not_None_eq)
      then have "EditText (initial_msg a) (ErrorDescarga (file_name a) (take 1000 (strip (snd (e_stderr E)))))
             \<in> set (trace (snd (finish_task E a w2)))"
        by (simp add: edit_text_shown)
      with grow have "EditText (initial_msg a) (ErrorDescarga (file_name a) (take 1000 (strip (snd (e_stderr E)))))
             \<in> set (trace (snd (download_and_upload_task E a w)))"
        by blast
      with 1 show ?thesis
        by (simp add: bad shown del: not_None_eq)
    next
      case hidden: False
      have "finish_task E a w2 = (Inr (), after_stderr E a w2)"
        using hidden
        by (simp add: finish_task_def Let_def reg bad after_stderr_def del: not_None_eq)
      then have "download_and_upload_task E a w = (None, finalize a (after_stderr E a w2))"
        using tb by (simp add: download_and_upload_task_def)
      with 1 show ?thesis
        by (simp add: bad hidden del: not_None_eq)
    qed
  next
    case ok: True
    let ?v = "w2\<lparr>active_processes := AList.delete (task_id a) (active_processes w2)\<rparr>"
    let ?d = "edit_text (initial_msg a) (DescargaCompleta (file_name a)) (e_done E) ?v"
    let ?u = "upload_with_progress E (initial_msg a) (output_filename a) (output_filename a) (task_id a) (snd ?d)"
    have f: "finish_task E a w2 = (case fst ?d of Inl e \<Rightarrow> (Inl e, snd ?d)
       | Inr z \<Rightarrow> (case fst ?u of None \<Rightarrow> (Inr (), snd ?u)
            | Some uploaded_file \<Rightarrow> if uploaded_file = [] then (Inr (), snd ?u)
                else edit_text (initial_msg a) (Completado (file_name a) (map_of uploaded_file ''webViewLink'')
                       (map_of uploaded_file ''id'')) (e_completed E) (snd ?u)))"
      using ok
      by (cases ?d; cases ?u)
        (simp add: reg finish_task_def Let_def split: sum.splits option.splits)
    have d: "EditText (initial_msg a) (DescargaCompleta (file_name a)) \<in> set (trace (snd ?d))"
      by (rule edit_text_shown)
    have u: "set (trace (snd ?d)) \<subseteq> set (trace (snd ?u))"
      by (intro logged_grows logged_upload_with_progress) simp
    have au: "Authenticate \<in> set (trace (snd ?u))"
      by (rule upload_authenticates)
    have c: "set (trace (snd ?u)) \<subseteq> set (trace (snd (edit_text (initial_msg a) (Completado n x y) (e_completed E) (snd ?u))))"
      for n x y
      by (intro logged_grows logged_then_edit) simp_all
    have uc: "set (trace (snd ?d)) \<subseteq> set (trace (snd (edit_text (initial_msg a) (Completado n x y) (e_completed E) (snd ?u))))"
      for n x y
      using u c [of n x y] by (rule order_trans)
    have auc: "Authenticate \<in> set (trace (snd (edit_text (initial_msg a) (Completado n x y) (e_completed E) (snd ?u))))"
      for n x y
      using au c [of n x y] by blast
    have fin: "set (trace (snd ?d)) \<subseteq> set (trace (snd (finish_task E a w2)))"
      unfolding f using u uc by (simp split: sum.splits option.splits)
    from d fin grow have shown: "EditText (initial_msg a) (DescargaCompleta (file_name a))
            \<in> set (trace (snd (download_and_upload_task E a w)))"
      by blast
    show ?thesis
    proof (cases "snd (e_done E)")
      case True
      have "set (trace (snd ?u)) \<subseteq> set (trace (snd (finish_task E a w2)))"
        unfolding f using c True by (simp split: sum.splits option.splits)
      with grow have run: "set (trace (snd ?u)) \<subseteq> set (trace (snd (download_and_upload_task E a w)))"
        by blast
      with au have "Authenticate \<in> set (trace (snd (download_and_upload_task E a w)))"
        by blast
      with shown run show ?thesis
        by (simp add: ok True del: not_None_eq)
    next
      case False
      then have "finish_task E a w2 = (Inl TelegramError, snd ?d)"
        unfolding f by simp
      then have "upload_calls (snd (finish_task E a w2)) = upload_calls w2"
        by simp
      then have "upload_calls (snd (download_and_upload_task E a w)) = upload_calls w"
        using c0 tb by (simp add: upload_calls_task)
      with shown show ?thesis
        by (simp add: ok False del: not_None_eq)
    qed
  qed
qed

lemma short_failing_phase:
  "download_phase short_failing_env some_args start_world =
     (Inr (), start_world\<lparr>active_processes := [(''t1'', 7, ''video.mp4'')],
        trace := [EditText (1, 10) (Iniciando ''video''), Log Info, Exec (cmd_list some_args)]\<rparr>)"
  by (simp add: task_defs short_failing_env_def plain_env_def some_args_def start_world_def)

lemma strip_short: "strip ''  ERROR: no formats  '' = ''ERROR: no formats''"
  by (simp add: strip_def is_space_def code_def)

theorem download_result_reported_witness:
  "download_phase short_failing_env some_args start_world =
     (Inr (), start_world\<lparr>active_processes := [(''t1'', 7, ''video.mp4'')],
        trace := [EditText (1, 10) (Iniciando ''video''), Log Info, Exec (cmd_list some_args)]\<rparr>)
   \<and> upload_calls (snd (download_and_upload_task short_failing_env some_args start_world))
       = upload_calls start_world
   \<and> EditText (1, 10) (ErrorDescarga ''video'' ''ERROR: no formats'')
       \<in> set (trace (snd (download_and_upload_task short_failing_env some_args start_world)))"
proof -
  let ?w2 = "start_world\<lparr>active_processes := [(''t1'', 7, ''video.mp4'')],
        trace := [EditText (1, 10) (Iniciando ''video''), Log Info, Exec (cmd_list some_args)]\<rparr>"
  have reg: "map_of (active_processes ?w2) (task_id some_args) \<noteq> None"
    by (simp add: some_args_def)
  have rc: "e_returncode short_failing_env = 1" "snd (e_stderr short_failing_env) = ''  ERROR: no formats  ''"
    by (simp_all add: short_failing_env_def plain_env_def)
  have pm: "map_of (progress_messages (after_stderr short_failing_env some_args ?w2)) (task_id some_args) \<noteq> None"
    by (simp add: after_stderr_def short_failing_env_def plain_env_def some_args_def
          start_world_def run_actions_def)
  have a: "initial_msg some_args = (1, 10)" "file_name some_args = ''video''"
    by (simp_all add: some_args_def)
  from download_result_reported [OF short_failing_phase reg] short_failing_phase
  show ?thesis
    by (simp only: rc pm a strip_short if_True if_False) simp
qed

end
